theory Spec2Isabelle
  imports
    Complex_Main
    "HOL-Library.Multiset"
    "HOL-Library.Char_ord"
    "HOL-Library.List_Lexorder"
begin

section \<open>Python values used by \<open>tree_census_h3_generator.py\<close>\<close>

text \<open>
  The script is embedded function by function. Exceptions are values of \<open>py_error\<close>;
  a computation that may raise returns \<open>py_error + 'a\<close> with \<open>Inl\<close> the exception.
  Text is ASCII text, one \<open>char\<close> per character.
\<close>

datatype py_error = ValueError | IndexError | KeyError

subsection \<open>\<open>str.split\<close>, \<open>str.lstrip\<close>, slices and list indexing\<close>

text \<open>\<open>s.split(sep)\<close> for a one-character separator: every occurrence of the separator
  ends a piece, so a text with \<open>n\<close> separators has \<open>n + 1\<close> pieces (some possibly empty).\<close>

fun split_on :: "char \<Rightarrow> string \<Rightarrow> string list" where
  "split_on sep [] = [[]]"
| "split_on sep (c # cs) =
     (if c = sep then [] # split_on sep cs
      else (case split_on sep cs of
              [] \<Rightarrow> [[c]]
            | p # ps \<Rightarrow> (c # p) # ps))"

text \<open>\<open>s.lstrip(chars)\<close> for a single character, and the slice \<open>s[i : j]\<close> for
  \<open>0 \<le> i \<le> j\<close>, which is shorter than \<open>j - i\<close> when the text ends early.\<close>

definition lstrip :: "char \<Rightarrow> string \<Rightarrow> string" where
  "lstrip c s = dropWhile (\<lambda>x. x = c) s"

definition slice :: "'a list \<Rightarrow> nat \<Rightarrow> nat \<Rightarrow> 'a list" where
  "slice s i j = take (j - i) (drop i s)"

text \<open>\<open>xs[i]\<close>: an index from \<open>-len(xs)\<close> to \<open>-1\<close> counts from the end, any index
  outside \<open>-len(xs) .. len(xs) - 1\<close> raises \<open>IndexError\<close>.\<close>

definition list_index :: "'a list \<Rightarrow> int \<Rightarrow> py_error + 'a" where
  "list_index xs i =
     (if 0 \<le> i \<and> i < int (length xs) then Inr (xs ! nat i)
      else if i < 0 \<and> - int (length xs) \<le> i then Inr (xs ! nat (int (length xs) + i))
      else Inl IndexError)"

subsection \<open>\<open>int(text, base)\<close>\<close>

text \<open>
  The built-in \<open>int\<close> on text: surrounding whitespace (for ASCII text the characters
  9 to 13 and the blank 32) is dropped, one sign may lead,
  in base 16 a prefix \<open>0x\<close> or \<open>0X\<close> may follow it, and the digits may be separated by
  single underscores. Anything else raises \<open>ValueError\<close>. The interpreter's limit on the
  number of digits of a decimal text (4300 by default) is not modelled.
\<close>

definition py_isspace :: "char \<Rightarrow> bool" where
  "py_isspace c = (let n = (of_char c :: nat) in (9 \<le> n \<and> n \<le> 13) \<or> n = 32)"

definition strip :: "string \<Rightarrow> string" where
  "strip s = rev (dropWhile py_isspace (rev (dropWhile py_isspace s)))"

definition digit_value :: "char \<Rightarrow> nat option" where
  "digit_value c =
     (let n = (of_char c :: nat) in
      if 48 \<le> n \<and> n \<le> 57 then Some (n - 48)
      else if 97 \<le> n \<and> n \<le> 122 then Some (n - 87)
      else if 65 \<le> n \<and> n \<le> 90 then Some (n - 55)
      else None)"

definition digit_in :: "nat \<Rightarrow> char \<Rightarrow> nat option" where
  "digit_in b c = (case digit_value c of
                     None \<Rightarrow> None
                   | Some d \<Rightarrow> if d < b then Some d else None)"

fun parse_digits :: "nat \<Rightarrow> nat \<Rightarrow> string \<Rightarrow> nat option" where
  "parse_digits b acc [] = Some acc"
| "parse_digits b acc (c # cs) =
     (if c = CHR ''_'' then
        (case cs of
           [] \<Rightarrow> None
         | d # ds \<Rightarrow> (case digit_in b d of
                        None \<Rightarrow> None
                      | Some v \<Rightarrow> parse_digits b (acc * b + v) ds))
      else (case digit_in b c of
              None \<Rightarrow> None
            | Some v \<Rightarrow> parse_digits b (acc * b + v) cs))"

definition parse_number :: "nat \<Rightarrow> string \<Rightarrow> nat option" where
  "parse_number b s =
     (case s of
        [] \<Rightarrow> None
      | c # cs \<Rightarrow> (case digit_in b c of
                     None \<Rightarrow> None
                   | Some v \<Rightarrow> parse_digits b v cs))"

definition skip_prefix :: "nat \<Rightarrow> string \<Rightarrow> string" where
  "skip_prefix b s =
     (case s of
        z # x # rest \<Rightarrow>
          if b = 16 \<and> z = CHR ''0'' \<and> (x = CHR ''x'' \<or> x = CHR ''X'')
          then (case rest of u # rest' \<Rightarrow> if u = CHR ''_'' then rest' else rest | [] \<Rightarrow> rest)
          else s
      | _ \<Rightarrow> s)"

definition split_sign :: "string \<Rightarrow> bool \<times> string" where
  "split_sign s =
     (case s of
        [] \<Rightarrow> (False, s)
      | c # cs \<Rightarrow> if c = CHR ''-'' then (True, cs)
                  else if c = CHR ''+'' then (False, cs)
                  else (False, s))"

definition py_int :: "nat \<Rightarrow> string \<Rightarrow> py_error + int" where
  "py_int b s =
     (case split_sign (strip s) of
        (neg, body) \<Rightarrow>
          (case parse_number b (skip_prefix b body) of
             None \<Rightarrow> Inl ValueError
           | Some n \<Rightarrow> Inr (if neg then - int n else int n)))"

section \<open>Flowering calendar: \<open>convert_text_range_to_months\<close>\<close>

definition MONTHS :: "string list" where
  "MONTHS = [''Jan'', ''Feb'', ''Mar'', ''Apr'', ''May'', ''Jun'',
             ''Jul'', ''Aug'', ''Sep'', ''Oct'', ''Nov'', ''Dec'']"

type_synonym calendar = "string \<rightharpoonup> bool"

text \<open>\<open>{m: False for m in MONTHS}\<close>\<close>

definition no_months :: calendar where
  "no_months = map_of (map (\<lambda>m. (m, False)) MONTHS)"

text \<open>\<open>start_month, end_month = map(int, r.split("-"))\<close>: the pieces are converted in
  order while the two targets are filled; a third piece, or a missing second one, makes
  the unpacking raise \<open>ValueError\<close>, as a piece that is no integer does.\<close>

definition parse_segment :: "string \<Rightarrow> py_error + (int \<times> int)" where
  "parse_segment r =
     (case split_on CHR ''-'' r of
        [a, b] \<Rightarrow> (case py_int 10 a of
                     Inl e \<Rightarrow> Inl e
                   | Inr start_month \<Rightarrow>
                       (case py_int 10 b of
                          Inl e \<Rightarrow> Inl e
                        | Inr end_month \<Rightarrow> Inr (start_month, end_month)))
      | _ \<Rightarrow> Inl ValueError)"

text \<open>The inner loop \<open>for i in range(lo, hi): flowering_months[MONTHS[i]] = True\<close>.\<close>

function mark_months :: "int \<Rightarrow> int \<Rightarrow> calendar \<Rightarrow> py_error + calendar" where
  "mark_months i hi fm =
     (if i < hi then
        (case list_index MONTHS i of
           Inl e \<Rightarrow> Inl e
         | Inr m \<Rightarrow> mark_months (i + 1) hi (fm(m \<mapsto> True)))
      else Inr fm)"
  by pat_completeness auto
termination
  by (relation "measure (\<lambda>(i, hi, fm). nat (hi - i))") auto

declare mark_months.simps [simp del]

text \<open>One turn of the outer loop, for the segment \<open>r\<close>.\<close>

definition mark_segment :: "string \<Rightarrow> calendar \<Rightarrow> py_error + calendar" where
  "mark_segment r fm =
     (case parse_segment r of
        Inl e \<Rightarrow> Inl e
      | Inr (start_month, end_month) \<Rightarrow> mark_months (start_month - 1) (end_month - 1 + 1) fm)"

fun mark_segments :: "string list \<Rightarrow> calendar \<Rightarrow> py_error + calendar" where
  "mark_segments [] fm = Inr fm"
| "mark_segments (r # rs) fm =
     (case mark_segment r fm of
        Inl e \<Rightarrow> Inl e
      | Inr fm' \<Rightarrow> mark_segments rs fm')"

definition convert_text_range_to_months :: "string \<Rightarrow> py_error + calendar" where
  "convert_text_range_to_months range_text =
     mark_segments (split_on CHR '';'' range_text) no_months"

section \<open>Colours: \<open>hex_to_rgb\<close>, \<open>rgb_to_hex\<close>\<close>

type_synonym rgb = "int \<times> int \<times> int"

definition red :: "rgb \<Rightarrow> int" where "red c = fst c"
definition green :: "rgb \<Rightarrow> int" where "green c = fst (snd c)"
definition blue :: "rgb \<Rightarrow> int" where "blue c = snd (snd c)"

text \<open>\<open>tuple(int(hex_color[i : i + 2], 16) for i in (0, 2, 4))\<close> after every leading
  \<open>#\<close> is dropped.\<close>

definition hex_to_rgb :: "string \<Rightarrow> py_error + rgb" where
  "hex_to_rgb hex_color =
     (let h = lstrip CHR ''#'' hex_color in
      case py_int 16 (slice h 0 2) of
        Inl e \<Rightarrow> Inl e
      | Inr r \<Rightarrow>
          (case py_int 16 (slice h 2 4) of
             Inl e \<Rightarrow> Inl e
           | Inr g \<Rightarrow>
               (case py_int 16 (slice h 4 6) of
                  Inl e \<Rightarrow> Inl e
                | Inr b \<Rightarrow> Inr (r, g, b))))"

text \<open>The format \<open>{:02x}\<close>: lowercase hexadecimal digits, a minus sign for a negative
  number, and zeros between sign and digits up to a width of two.\<close>

definition hex_digit :: "nat \<Rightarrow> char" where
  "hex_digit d = ''0123456789abcdef'' ! d"

fun hex_digits :: "nat \<Rightarrow> string" where
  "hex_digits n = (if n < 16 then [hex_digit n] else hex_digits (n div 16) @ [hex_digit (n mod 16)])"

declare hex_digits.simps [simp del]

definition format_02x :: "int \<Rightarrow> string" where
  "format_02x n =
     (let sign = (if n < 0 then [CHR ''-''] else []);
          digits = hex_digits (nat \<bar>n\<bar>)
      in sign @ replicate (2 - (length sign + length digits)) CHR ''0'' @ digits)"

definition rgb_to_hex :: "rgb \<Rightarrow> string" where
  "rgb_to_hex c = [CHR ''#''] @ format_02x (red c) @ format_02x (green c) @ format_02x (blue c)"

section \<open>Blending: \<open>blend_colors_with_prominence\<close>\<close>

text \<open>
  A row of the joined table \<open>flowering_tree_df\<close>: the species name, the colour and the
  prominence of its species (either may be missing), the cell of the tree, and the twelve
  month columns. The column \<open>colour_hex\<close> is assigned from \<open>colour\<close> before the month loop,
  so reading it gives the value of \<open>colour\<close>.
\<close>

record tree_row =
  TreeName :: string
  colour :: "string option"
  prominence :: "string option"
  h3_index :: string
  month_flags :: calendar

text \<open>
  The weights are the floats \<open>1.0\<close>, \<open>2.0\<close> and \<open>3.0\<close>. They, the products with a channel
  value and their sums are integers, which binary floating point holds exactly below
  \<open>2^53\<close>; the quotient of two such numbers is rounded to the nearest float, and \<open>int\<close> of
  it is the whole part of the exact quotient while the total weight stays below \<open>2^45\<close>.
  The embedding computes with the exact values.
\<close>

definition prominence_weights :: "string \<rightharpoonup> real" where
  "prominence_weights = [''low'' \<mapsto> 1, ''med'' \<mapsto> 2, ''high'' \<mapsto> 3]"

text \<open>\<open>int(x)\<close> of a float drops the fraction, towards zero.\<close>

definition py_trunc :: "real \<Rightarrow> int" where
  "py_trunc x = (if x < 0 then - \<lfloor>- x\<rfloor> else \<lfloor>x\<rfloor>)"

text \<open>The loop over the rows of the group, filling \<open>colors\<close> and \<open>weights\<close>: a row with
  colour and prominence has its colour decoded, then its weight looked up.\<close>

fun gather :: "tree_row list \<Rightarrow> py_error + (rgb list \<times> real list)" where
  "gather [] = Inr ([], [])"
| "gather (row # rows) =
     (case (colour row, prominence row) of
        (Some colour_hex, Some p) \<Rightarrow>
          (case hex_to_rgb colour_hex of
             Inl e \<Rightarrow> Inl e
           | Inr c \<Rightarrow>
               (case prominence_weights p of
                  None \<Rightarrow> Inl KeyError
                | Some w \<Rightarrow>
                    (case gather rows of
                       Inl e \<Rightarrow> Inl e
                     | Inr (colors, weights) \<Rightarrow> Inr (c # colors, w # weights))))
      | _ \<Rightarrow> gather rows)"

text \<open>\<open>sum(c[k] * w for c, w in zip(colors, weights))\<close>\<close>

definition weighted_sum :: "(rgb \<Rightarrow> int) \<Rightarrow> rgb list \<Rightarrow> real list \<Rightarrow> real" where
  "weighted_sum channel colors weights =
     sum_list (map (\<lambda>(c, w). of_int (channel c) * w) (zip colors weights))"

text \<open>The function itself; its argument \<open>group\<close> is written \<open>grp\<close>.\<close>

definition blend_colors_with_prominence :: "tree_row list \<Rightarrow> py_error + string option" where
  "blend_colors_with_prominence grp =
     (case gather grp of
        Inl e \<Rightarrow> Inl e
      | Inr (colors, weights) \<Rightarrow>
          if colors = [] then Inr None
          else
            let total_weight = sum_list weights in
            if total_weight = 0 then Inr None
            else
              let r = weighted_sum red colors weights / total_weight;
                  g = weighted_sum green colors weights / total_weight;
                  b = weighted_sum blue colors weights / total_weight
              in Inr (Some (rgb_to_hex (py_trunc r, py_trunc g, py_trunc b))))"

section \<open>The month loop\<close>

text \<open>One entry of \<open>blended_colors\<close>.\<close>

record cell_aggregate =
  cell_h3_index :: string
  cell_colour_hex :: string
  tree_species :: "string list"

text \<open>\<open>Series.unique()\<close>: the values in the order of their first occurrence.\<close>

fun unique :: "'a list \<Rightarrow> 'a list" where
  "unique [] = []"
| "unique (x # xs) = x # filter (\<lambda>y. y \<noteq> x) (unique xs)"

text \<open>\<open>groupby("h3_index")\<close>: one group per key, the keys ascending, and in each group
  the rows in the order of the table.\<close>

definition groupby_h3_index :: "tree_row list \<Rightarrow> (string \<times> tree_row list) list" where
  "groupby_h3_index df =
     map (\<lambda>k. (k, filter (\<lambda>row. h3_index row = k) df)) (sort (remdups (map h3_index df)))"

text \<open>The loop over the groups; \<open>if blended_color:\<close> holds for a text that is not empty.\<close>

fun blend_groups :: "(string \<times> tree_row list) list \<Rightarrow> py_error + cell_aggregate list" where
  "blend_groups [] = Inr []"
| "blend_groups ((h3, grp) # groups) =
     (case blend_colors_with_prominence grp of
        Inl e \<Rightarrow> Inl e
      | Inr blended_color \<Rightarrow>
          (case blend_groups groups of
             Inl e \<Rightarrow> Inl e
           | Inr blended_colors \<Rightarrow>
               (case blended_color of
                  None \<Rightarrow> Inr blended_colors
                | Some c \<Rightarrow>
                    if c = [] then Inr blended_colors
                    else Inr (\<lparr>cell_h3_index = h3, cell_colour_hex = c,
                               tree_species = unique (map TreeName grp)\<rparr> # blended_colors))))"

text \<open>The body of the month loop up to the table \<open>most_frequent_colors\<close>; \<open>None\<close> stands
  for \<open>continue\<close>, where nothing is drawn or written for the month.\<close>

definition process_month :: "tree_row list \<Rightarrow> string \<Rightarrow> py_error + cell_aggregate list option" where
  "process_month df month =
     (let flowering_in_month = filter (\<lambda>row. month_flags row month = Some True) df in
      if length flowering_in_month = 0 then Inr None
      else
        let h3_groups = groupby_h3_index flowering_in_month in
        if length h3_groups = 0 then Inr None
        else
          (case blend_groups h3_groups of
             Inl e \<Rightarrow> Inl e
           | Inr blended_colors \<Rightarrow>
               if blended_colors = [] then Inr None else Inr (Some blended_colors)))"

text \<open>\<open>for month in MONTHS\<close>: the months that reach the output step, each with its table.\<close>

fun month_loop :: "tree_row list \<Rightarrow> string list \<Rightarrow> py_error + (string \<times> cell_aggregate list) list" where
  "month_loop df [] = Inr []"
| "month_loop df (month # months) =
     (case process_month df month of
        Inl e \<Rightarrow> Inl e
      | Inr None \<Rightarrow> month_loop df months
      | Inr (Some cells) \<Rightarrow>
          (case month_loop df months of
             Inl e \<Rightarrow> Inl e
           | Inr written \<Rightarrow> Inr ((month, cells) # written)))"

section \<open>The cell polygon: \<open>h3_cell_to_polygon\<close>\<close>

text \<open>
  Coordinates are floats on which the function does no arithmetic; they are carried as real
  numbers. The function \<open>h3.cell_to_boundary\<close> of the hex-grid library is not part of the
  source and is a parameter: for a cell it gives the vertices of the boundary as pairs
  (latitude, longitude), in the order of the library's traversal. The argument \<open>h3_index\<close>
  of the source is written \<open>cell_index\<close> here, the former being the name of a column.
\<close>

type_synonym point = "real \<times> real"

text \<open>Modelled from the spec: the class \<open>Polygon\<close> of the geometry library, which is not
  part of the source. A polygon is made from the sequence of the vertices of its shell, as
  pairs (x, y); its boundary is the closed ring through them, which joins the last vertex to
  the first unless the sequence already ends where it starts.\<close>

datatype polygon = Polygon (shell: "point list")

definition ring :: "polygon \<Rightarrow> point list" where
  "ring p = (case shell p of
               [] \<Rightarrow> []
             | v # vs \<Rightarrow> if last (v # vs) = v then v # vs else v # vs @ [v])"

definition h3_cell_to_polygon :: "(string \<Rightarrow> point list) \<Rightarrow> string \<Rightarrow> polygon" where
  "h3_cell_to_polygon cell_to_boundary cell_index =
     (let boundary = cell_to_boundary cell_index;
          polygon_coords = map (\<lambda>(lat, lng). (lng, lat)) boundary
      in Polygon polygon_coords)"

section \<open>Vocabulary of the statements\<close>

subsection \<open>Range texts\<close>

text \<open>
  A number, as a segment may write it: blanks around it are ignored, a \<open>+\<close> may lead, and
  the decimal digits may be separated by single underscores. Its value is read off its
  digits. (A piece of a segment holds no \<open>-\<close>, so no number is negative.)
\<close>

definition decimal_digit :: "char \<Rightarrow> bool" where
  "decimal_digit c = (CHR ''0'' \<le> c \<and> c \<le> CHR ''9'')"

fun digit_groups :: "string \<Rightarrow> bool" where
  "digit_groups [] = False"
| "digit_groups [c] = decimal_digit c"
| "digit_groups (c # d # ds) =
     (decimal_digit c \<and> (if d = CHR ''_'' then digit_groups ds else digit_groups (d # ds)))"

definition rest_ok :: "string \<Rightarrow> bool" where
  "rest_ok cs = (cs = [] \<or> digit_groups (if hd cs = CHR ''_'' then tl cs else cs))"

definition number_value :: "string \<Rightarrow> nat" where
  "number_value s = foldl (\<lambda>n c. 10 * n + (of_char c - 48)) 0 (filter decimal_digit s)"

definition blank :: "char \<Rightarrow> bool" where
  "blank c = ((of_char c :: nat) \<in> {9, 10, 11, 12, 13, 32})"

definition trim :: "string \<Rightarrow> string" where
  "trim s = rev (dropWhile blank (rev (dropWhile blank s)))"

definition number_text :: "string \<Rightarrow> bool" where
  "number_text s =
     (case trim s of
        [] \<Rightarrow> False
      | c # cs \<Rightarrow> digit_groups (if c = CHR ''+'' then cs else c # cs))"

text \<open>The two numbers of a segment \<open>start-end\<close>: the text before the first dash and the text
  after it, which holds no further dash, are both numbers. Any other segment has none.\<close>

definition segment_numbers :: "string \<Rightarrow> (nat \<times> nat) option" where
  "segment_numbers r =
     (let a = takeWhile (\<lambda>c. c \<noteq> CHR ''-'') r in
      case dropWhile (\<lambda>c. c \<noteq> CHR ''-'') r of
        [] \<Rightarrow> None
      | dash # b \<Rightarrow>
          if CHR ''-'' \<notin> set b \<and> number_text a \<and> number_text b
          then Some (number_value a, number_value b)
          else None)"

text \<open>The text whose segments are \<open>rs\<close>: \<open>sep.join(rs)\<close>.\<close>

fun join_with :: "char \<Rightarrow> string list \<Rightarrow> string" where
  "join_with sep [] = []"
| "join_with sep [r] = r"
| "join_with sep (r # r' # rs) = r @ sep # join_with sep (r' # rs)"

text \<open>The three kinds of segment: without two numbers; with \<open>start \<le> end\<close> and \<open>end > 12\<close>;
  and the others, whose walk \<open>range(start - 1, end)\<close> is empty or stays below 12.\<close>

definition malformed :: "string \<Rightarrow> bool" where
  "malformed r = (segment_numbers r = None)"

definition overruns :: "string \<Rightarrow> bool" where
  "overruns r = (case segment_numbers r of None \<Rightarrow> False | Some (s, e) \<Rightarrow> s \<le> e \<and> 12 < e)"

definition accepted :: "string \<Rightarrow> bool" where
  "accepted r = (case segment_numbers r of None \<Rightarrow> False | Some (s, e) \<Rightarrow> e < s \<or> e \<le> 12)"

text \<open>The months, numbered from 1, that the numbers of a segment flag: those from start to
  end, and month 12 when the start is 0. A list of segments flags what one of them flags.\<close>

definition segment_flags :: "nat \<times> nat \<Rightarrow> nat \<Rightarrow> bool" where
  "segment_flags se k = (case se of (s, e) \<Rightarrow> (s \<le> k \<and> k \<le> e) \<or> (s = 0 \<and> k = 12))"

definition flagged :: "string list \<Rightarrow> nat \<Rightarrow> bool" where
  "flagged segs k =
     list_ex (\<lambda>r. case segment_numbers r of None \<Rightarrow> False | Some se \<Rightarrow> segment_flags se k) segs"

text \<open>A calendar with the labels of the months \<open>k\<close> satisfying \<open>f\<close> set to true.\<close>

definition paint :: "(nat \<Rightarrow> bool) \<Rightarrow> calendar \<Rightarrow> calendar" where
  "paint f fm = (\<lambda>m. if (\<exists>k. 1 \<le> k \<and> k \<le> 12 \<and> f k \<and> MONTHS ! (k - 1) = m)
                      then Some True else fm m)"

subsection \<open>Colours and rows\<close>

text \<open>A well-formed colour is \<open>#\<close> followed by six hexadecimal digits of either case. Its
  three channels are the values of its three pairs of digits.\<close>

definition hex_char :: "char \<Rightarrow> bool" where
  "hex_char c = (c \<in> set ''0123456789abcdefABCDEF'')"

definition hex_value :: "char \<Rightarrow> nat" where
  "hex_value c =
     (case map_of (zip ''0123456789abcdefABCDEF'' ([0..<16] @ [10..<16])) c of
        None \<Rightarrow> 0
      | Some v \<Rightarrow> v)"

definition well_formed_colour :: "string \<Rightarrow> bool" where
  "well_formed_colour h =
     (case h of
        [] \<Rightarrow> False
      | c # ds \<Rightarrow> c = CHR ''#'' \<and> length ds = 6 \<and> list_all hex_char ds)"

definition byte_value :: "char \<Rightarrow> char \<Rightarrow> int" where
  "byte_value c d = int (16 * hex_value c + hex_value d)"

definition colour_channels :: "string \<Rightarrow> rgb" where
  "colour_channels h =
     (byte_value (h ! 1) (h ! 2), byte_value (h ! 3) (h ! 4), byte_value (h ! 5) (h ! 6))"

text \<open>What the encoder writes: \<open>#\<close> followed by six lowercase hexadecimal digits.\<close>

definition lower_hex_digit :: "char \<Rightarrow> bool" where
  "lower_hex_digit d = (d \<in> set ''0123456789abcdef'')"

definition lowercase_hex_colour :: "string \<Rightarrow> bool" where
  "lowercase_hex_colour h =
     (case h of
        [] \<Rightarrow> False
      | c # ds \<Rightarrow> c = CHR ''#'' \<and> length ds = 6 \<and> list_all lower_hex_digit ds)"

text \<open>The guard of the loop in \<open>blend_colors_with_prominence\<close>:
  \<open>pd.notna(row["colour"]) and pd.notna(row["prominence"])\<close>.\<close>

definition contributes :: "tree_row \<Rightarrow> bool" where
  "contributes row = (colour row \<noteq> None \<and> prominence row \<noteq> None)"

text \<open>The pair a row adds to \<open>colors\<close> and \<open>weights\<close> when nothing raises.\<close>

definition contribution :: "tree_row \<Rightarrow> (rgb \<times> real) option" where
  "contribution row =
     (case (colour row, prominence row) of
        (Some h, Some p) \<Rightarrow>
          (case hex_to_rgb h of
             Inl e \<Rightarrow> None
           | Inr c \<Rightarrow> (case prominence_weights p of None \<Rightarrow> None | Some w \<Rightarrow> Some (c, w)))
      | _ \<Rightarrow> None)"

definition contributions :: "tree_row list \<Rightarrow> (rgb \<times> real) list" where
  "contributions grp = List.map_filter contribution grp"

text \<open>A row is well formed when, if it has both a colour and a prominence, the colour is
  \<open>#\<close> and six hexadecimal digits and the prominence is one of the three categories.\<close>

definition well_formed_row :: "tree_row \<Rightarrow> bool" where
  "well_formed_row row =
     (case (colour row, prominence row) of
        (Some h, Some p) \<Rightarrow> well_formed_colour h \<and> p \<in> {''low'', ''med'', ''high''}
      | _ \<Rightarrow> True)"

text \<open>The two sums of the weighted mean of a channel, taken over the rows of the group.\<close>

definition numerator :: "(rgb \<Rightarrow> int) \<Rightarrow> tree_row list \<Rightarrow> real" where
  "numerator channel grp =
     sum_list (map (\<lambda>row. case contribution row of
                             None \<Rightarrow> 0
                           | Some (c, w) \<Rightarrow> of_int (channel c) * w) grp)"

definition denominator :: "tree_row list \<Rightarrow> real" where
  "denominator grp =
     sum_list (map (\<lambda>row. case contribution row of None \<Rightarrow> 0 | Some (c, w) \<Rightarrow> w) grp)"

text \<open>The weight a row adds to the total: the weight of its prominence when the row has both
  a colour and a prominence, nothing otherwise.\<close>

definition row_weight :: "tree_row \<Rightarrow> real" where
  "row_weight row =
     (case (colour row, prominence row) of
        (Some h, Some p) \<Rightarrow> (case prominence_weights p of Some w \<Rightarrow> w | None \<Rightarrow> 0)
      | _ \<Rightarrow> 0)"

definition total_weight :: "tree_row list \<Rightarrow> real" where
  "total_weight grp = sum_list (map row_weight grp)"

text \<open>The weighted mean as the specification words it, on whole numbers: the weight of a
  prominence, the channel values and weight of each row that has both a colour and a
  prominence, and the quotient of the two sums cut to its whole part.\<close>

definition spec_weight :: "string \<Rightarrow> int" where
  "spec_weight p =
     (if p = ''low'' then 1 else if p = ''med'' then 2 else if p = ''high'' then 3 else 0)"

definition row_sample :: "tree_row \<Rightarrow> (rgb \<times> int) option" where
  "row_sample row =
     (case (colour row, prominence row) of
        (Some h, Some p) \<Rightarrow> Some (colour_channels h, spec_weight p)
      | _ \<Rightarrow> None)"

definition samples :: "tree_row list \<Rightarrow> (rgb \<times> int) list" where
  "samples grp = List.map_filter row_sample grp"

definition weighted_mean :: "(rgb \<Rightarrow> int) \<Rightarrow> (rgb \<times> int) list \<Rightarrow> int" where
  "weighted_mean channel xs =
     sum_list (map (\<lambda>(c, w). channel c * w) xs) div sum_list (map snd xs)"

text \<open>A channel of the colour \<open>out\<close> lies in 0..255 and between the least and the greatest
  value of that channel among the samples of the group.\<close>

definition channel_within :: "(rgb \<Rightarrow> int) \<Rightarrow> tree_row list \<Rightarrow> string \<Rightarrow> bool" where
  "channel_within channel grp out =
     (let v = channel (colour_channels out);
          vs = map (\<lambda>(c, w). channel c) (samples grp)
      in 0 \<le> v \<and> v \<le> 255 \<and> Min (set vs) \<le> v \<and> v \<le> Max (set vs))"

text \<open>A colour that is well formed for a group: \<open>#\<close> and six lowercase hexadecimal
  digits, each channel within its bounds.\<close>

definition representable_colour :: "tree_row list \<Rightarrow> string \<Rightarrow> bool" where
  "representable_colour grp out =
     (lowercase_hex_colour out \<and> channel_within red grp out \<and>
      channel_within green grp out \<and> channel_within blue grp out)"

subsection \<open>Months and cells\<close>

text \<open>A row flowers in a month when its column of that month is \<open>True\<close>; the rows of a cell
  in a month are the rows of the table that flower in the month and lie in the cell; a row
  qualifies for a month when it flowers in it and has both a colour and a prominence.\<close>

definition flowering_in :: "string \<Rightarrow> tree_row \<Rightarrow> bool" where
  "flowering_in month row = (month_flags row month = Some True)"

definition cell_rows :: "tree_row list \<Rightarrow> string \<Rightarrow> string \<Rightarrow> tree_row list" where
  "cell_rows df month cell = filter (\<lambda>row. flowering_in month row \<and> h3_index row = cell) df"

definition qualifies :: "string \<Rightarrow> tree_row \<Rightarrow> bool" where
  "qualifies month row = (flowering_in month row \<and> colour row \<noteq> None \<and> prominence row \<noteq> None)"

text \<open>The entry that the loop over the groups appends for a group with a colour.\<close>

definition aggregate_of :: "string \<times> tree_row list \<Rightarrow> cell_aggregate" where
  "aggregate_of kg =
     \<lparr>cell_h3_index = fst kg,
      cell_colour_hex = (case blend_colors_with_prominence (snd kg) of
                           Inr (Some c) \<Rightarrow> c | _ \<Rightarrow> []),
      tree_species = unique (map TreeName (snd kg))\<rparr>"

subsection \<open>Simple rings\<close>

text \<open>
  A ring of at least three distinct vertices, each joined to the next and the last to the
  first, is simple when two edges have no point in common other than the vertex that
  consecutive edges share. The side of the line through \<open>a\<close> and \<open>b\<close> on which \<open>c\<close> lies is
  the sign of \<open>orient a b c\<close>; a point lies on a segment when it is on its line and within
  its bounding box; two segments meet when each separates the ends of the other, or an end of
  one lies on the other.
\<close>

definition orient :: "point \<Rightarrow> point \<Rightarrow> point \<Rightarrow> real" where
  "orient a b c = (fst b - fst a) * (snd c - snd a) - (snd b - snd a) * (fst c - fst a)"

definition in_box :: "point \<Rightarrow> point \<Rightarrow> point \<Rightarrow> bool" where
  "in_box a b p =
     (min (fst a) (fst b) \<le> fst p \<and> fst p \<le> max (fst a) (fst b) \<and>
      min (snd a) (snd b) \<le> snd p \<and> snd p \<le> max (snd a) (snd b))"

definition on_segment :: "point \<Rightarrow> point \<Rightarrow> point \<Rightarrow> bool" where
  "on_segment a b p = (orient a b p = 0 \<and> in_box a b p)"

definition segments_meet :: "point \<Rightarrow> point \<Rightarrow> point \<Rightarrow> point \<Rightarrow> bool" where
  "segments_meet a b c d =
     ((orient a b c * orient a b d < 0 \<and> orient c d a * orient c d b < 0) \<or>
      on_segment a b c \<or> on_segment a b d \<or> on_segment c d a \<or> on_segment c d b)"

definition edge :: "point list \<Rightarrow> nat \<Rightarrow> point \<times> point" where
  "edge vs i = (vs ! i, vs ! (Suc i mod length vs))"

definition edges_apart :: "point list \<Rightarrow> nat \<Rightarrow> nat \<Rightarrow> bool" where
  "edges_apart vs i j =
     (case (edge vs i, edge vs j) of
        ((a, b), (c, d)) \<Rightarrow>
          if Suc i mod length vs = j then \<not> on_segment a b d \<and> \<not> on_segment c d a
          else if Suc j mod length vs = i then \<not> on_segment a b c \<and> \<not> on_segment c d b
          else \<not> segments_meet a b c d)"

definition simple_ring :: "point list \<Rightarrow> bool" where
  "simple_ring vs =
     (3 \<le> length vs \<and> distinct vs \<and>
      list_all (\<lambda>i. list_all (\<lambda>j. edges_apart vs i j) [Suc i..<length vs]) [0..<length vs])"

subsection \<open>Concrete inputs\<close>

text \<open>Rows used as concrete inputs: one without a colour, one whose prominence is spelt
  with a capital letter, a red one of high prominence and a blue one of low prominence.\<close>

definition row_missing_colour :: tree_row where
  "row_missing_colour =
     \<lparr>TreeName = ''Tabebuia rosea'', colour = None, prominence = Some ''low'',
      h3_index = ''8b6189256d9bfff'', month_flags = no_months\<rparr>"

definition row_prominence_High :: tree_row where
  "row_prominence_High =
     \<lparr>TreeName = ''Delonix regia'', colour = Some ''#ff4500'', prominence = Some ''High'',
      h3_index = ''8b6189256d9bfff'', month_flags = no_months\<rparr>"

definition row_red_high :: tree_row where
  "row_red_high =
     \<lparr>TreeName = ''Delonix regia'', colour = Some ''#ff0000'', prominence = Some ''high'',
      h3_index = ''8b6189256d9bfff'', month_flags = no_months\<rparr>"

definition row_blue_low :: tree_row where
  "row_blue_low =
     \<lparr>TreeName = ''Jacaranda mimosifolia'', colour = Some ''#0000ff'', prominence = Some ''low'',
      h3_index = ''8b6189256d9bfff'', month_flags = no_months\<rparr>"

text \<open>Rows that flower in January only, and one that flowers in March only.\<close>

definition january :: calendar where
  "january = no_months(''Jan'' \<mapsto> True)"

definition march :: calendar where
  "march = no_months(''Mar'' \<mapsto> True)"

definition row_gulmohar :: tree_row where
  "row_gulmohar =
     \<lparr>TreeName = ''Delonix regia'', colour = Some ''#ff0000'', prominence = Some ''high'',
      h3_index = ''8b6189256d9bfff'', month_flags = january\<rparr>"

definition row_tabebuia :: tree_row where
  "row_tabebuia =
     \<lparr>TreeName = ''Tabebuia rosea'', colour = Some ''#ffc0cb'', prominence = None,
      h3_index = ''8b6189256d9bfff'', month_flags = january\<rparr>"

definition row_jacaranda :: tree_row where
  "row_jacaranda =
     \<lparr>TreeName = ''Jacaranda mimosifolia'', colour = Some ''#0000ff'', prominence = Some ''low'',
      h3_index = ''8b6189256d9afff'', month_flags = january\<rparr>"

definition row_cassia :: tree_row where
  "row_cassia =
     \<lparr>TreeName = ''Cassia fistula'', colour = Some ''#ffff00'', prominence = Some ''med'',
      h3_index = ''8b6189256d9bfff'', month_flags = march\<rparr>"

text \<open>A boundary of six vertices, as pairs (latitude, longitude).\<close>

definition hexagon :: "point list" where
  "hexagon = [(12.97, 77.59), (12.98, 77.60), (12.99, 77.60), (13.00, 77.59),
              (12.99, 77.58), (12.98, 77.58)]"

section \<open>Properties of the calendar parser\<close>

lemma length_MONTHS: "length MONTHS = 12"
  by (simp add: MONTHS_def)

lemma distinct_MONTHS: "distinct MONTHS"
  by (simp add: MONTHS_def)

lemma list_index_MONTHS_ok:
  "0 \<le> i \<Longrightarrow> i < 12 \<Longrightarrow> list_index MONTHS i = Inr (MONTHS ! nat i)"
  by (simp add: list_index_def length_MONTHS)

lemma list_index_MONTHS_neg:
  "- 12 \<le> i \<Longrightarrow> i < 0 \<Longrightarrow> list_index MONTHS i = Inr (MONTHS ! nat (12 + i))"
  by (simp add: list_index_def length_MONTHS)

lemma list_index_MONTHS_err:
  "12 \<le> i \<or> i < - 12 \<Longrightarrow> list_index MONTHS i = Inl IndexError"
  by (auto simp add: list_index_def length_MONTHS)

lemma mark_months_empty: "hi \<le> lo \<Longrightarrow> mark_months lo hi fm = Inr fm"
  by (subst mark_months.simps) simp

lemma mark_months_in_range:
  "0 \<le> i \<Longrightarrow> hi \<le> 12 \<Longrightarrow>
   mark_months i hi fm =
     Inr (\<lambda>m. if (\<exists>j. i \<le> j \<and> j < hi \<and> MONTHS ! nat j = m) then Some True else fm m)"
proof (induction i hi fm rule: mark_months.induct)
  case (1 i hi fm)
  show ?case
  proof (cases "i < hi")
    case False
    then have "\<And>m. \<not> (\<exists>j. i \<le> j \<and> j < hi \<and> MONTHS ! nat j = m)" by auto
    with False show ?thesis by (auto simp add: mark_months_empty fun_eq_iff)
  next
    case True
    with 1 have idx: "list_index MONTHS i = Inr (MONTHS ! nat i)"
      by (simp add: list_index_MONTHS_ok)
    have step: "mark_months (i + 1) hi (fm(MONTHS ! nat i \<mapsto> True)) =
        Inr (\<lambda>m. if (\<exists>j. i + 1 \<le> j \<and> j < hi \<and> MONTHS ! nat j = m) then Some True
                  else (fm(MONTHS ! nat i \<mapsto> True)) m)"
      using "1.IH"[OF True idx] "1.prems" by (simp del: fun_upd_apply)
    have ex: "\<And>m. (\<exists>j. i \<le> j \<and> j < hi \<and> MONTHS ! nat j = m) \<longleftrightarrow>
                   (MONTHS ! nat i = m \<or> (\<exists>j. i + 1 \<le> j \<and> j < hi \<and> MONTHS ! nat j = m))"
    proof -
      fix m
      show "(\<exists>j. i \<le> j \<and> j < hi \<and> MONTHS ! nat j = m) \<longleftrightarrow>
                   (MONTHS ! nat i = m \<or> (\<exists>j. i + 1 \<le> j \<and> j < hi \<and> MONTHS ! nat j = m))"
      proof
        assume "\<exists>j. i \<le> j \<and> j < hi \<and> MONTHS ! nat j = m"
        then obtain j where j: "i \<le> j" "j < hi" "MONTHS ! nat j = m" by blast
        show "MONTHS ! nat i = m \<or> (\<exists>j. i + 1 \<le> j \<and> j < hi \<and> MONTHS ! nat j = m)"
        proof (cases "j = i")
          case True with j show ?thesis by simp
        next
          case False with j have "i + 1 \<le> j" by simp
          with j show ?thesis by blast
        qed
      next
        assume "MONTHS ! nat i = m \<or> (\<exists>j. i + 1 \<le> j \<and> j < hi \<and> MONTHS ! nat j = m)"
        then show "\<exists>j. i \<le> j \<and> j < hi \<and> MONTHS ! nat j = m"
        proof
          assume "MONTHS ! nat i = m"
          with True show ?thesis by blast
        next
          assume "\<exists>j. i + 1 \<le> j \<and> j < hi \<and> MONTHS ! nat j = m"
          then obtain j where "i + 1 \<le> j" "j < hi" "MONTHS ! nat j = m" by blast
          then have "i \<le> j \<and> j < hi \<and> MONTHS ! nat j = m" by simp
          then show ?thesis by blast
        qed
      qed
    qed
    have "mark_months i hi fm = mark_months (i + 1) hi (fm(MONTHS ! nat i \<mapsto> True))"
      using True idx by (subst mark_months.simps) simp
    also have "\<dots> = Inr (\<lambda>m. if (\<exists>j. i \<le> j \<and> j < hi \<and> MONTHS ! nat j = m) then Some True else fm m)"
      unfolding step by (auto simp add: fun_eq_iff ex)
    finally show ?thesis .
  qed
qed

lemma mark_months_overrun:
  "- 12 \<le> i \<Longrightarrow> i < hi \<Longrightarrow> 12 < hi \<Longrightarrow> mark_months i hi fm = Inl IndexError"
proof (induction i hi fm rule: mark_months.induct)
  case (1 i hi fm)
  show ?case
  proof (cases "12 \<le> i")
    case True
    with 1 show ?thesis by (subst mark_months.simps) (simp add: list_index_MONTHS_err)
  next
    case False
    then obtain m where idx: "list_index MONTHS i = Inr m"
      using 1(2) by (cases "0 \<le> i") (simp_all add: list_index_MONTHS_ok list_index_MONTHS_neg)
    have "mark_months (i + 1) hi (fm(m \<mapsto> True)) = Inl IndexError"
      using "1.IH"[OF _ idx] "1.prems" False by (simp del: fun_upd_apply)
    then show ?thesis using "1.prems" idx by (subst mark_months.simps) (simp del: fun_upd_apply)
  qed
qed

lemma mark_months_below:
  "i < - 12 \<Longrightarrow> i < hi \<Longrightarrow> mark_months i hi fm = Inl IndexError"
  by (subst mark_months.simps) (simp add: list_index_MONTHS_err)

lemma split_on_no_sep: "p \<in> set (split_on sep s) \<Longrightarrow> sep \<notin> set p"
proof (induction s arbitrary: p)
  case Nil
  then show ?case by simp
next
  case (Cons c cs)
  show ?case
  proof (cases "c = sep")
    case True
    with Cons show ?thesis by auto
  next
    case False
    show ?thesis
    proof (cases "split_on sep cs")
      case Nil
      with Cons.prems False show ?thesis by simp
    next
      case (Cons q qs)
      with Cons.prems False have "p = c # q \<or> p \<in> set qs" by simp
      moreover have "sep \<notin> set q" using Cons.IH[of q] Cons by simp
      moreover have "p \<in> set qs \<Longrightarrow> sep \<notin> set p" using Cons.IH[of p] Cons by simp
      ultimately show ?thesis using False by auto
    qed
  qed
qed

lemma set_strip: "set (strip s) \<subseteq> set s"
proof
  fix x
  assume "x \<in> set (strip s)"
  then have "x \<in> set (dropWhile py_isspace (rev (dropWhile py_isspace s)))"
    by (simp add: strip_def)
  then have "x \<in> set (rev (dropWhile py_isspace s))"
    by (rule set_dropWhileD)
  then have "x \<in> set (dropWhile py_isspace s)"
    by simp
  then show "x \<in> set s"
    by (rule set_dropWhileD)
qed

lemma no_months_apply: "no_months m = (if m \<in> set MONTHS then Some False else None)"
  by (simp add: no_months_def map_of_map_restrict restrict_map_def)

lemma blank_py_isspace: "py_isspace = blank"
  by (rule ext) (auto simp add: py_isspace_def blank_def Let_def)

lemma strip_trim: "strip = trim"
  by (rule ext) (simp add: strip_def trim_def blank_py_isspace)

lemma digit_in_decimal:
  "digit_in 10 c = (if decimal_digit c then Some (of_char c - 48) else None)"
  by (auto simp add: digit_in_def digit_value_def decimal_digit_def less_eq_char_def Let_def)

lemma underscore_no_digit: "\<not> decimal_digit CHR ''_''"
  by (simp add: decimal_digit_def)

lemma digit_groups_Cons: "digit_groups (c # cs) = (decimal_digit c \<and> rest_ok cs)"
  by (cases cs) (auto simp add: rest_ok_def)

lemma parse_digits_decimal:
  "b = 10 \<Longrightarrow> parse_digits b acc cs =
     (if rest_ok cs
      then Some (foldl (\<lambda>n c. 10 * n + (of_char c - 48)) acc (filter decimal_digit cs))
      else None)"
proof (induction b acc cs rule: parse_digits.induct)
  case (1 b acc)
  then show ?case by (simp add: rest_ok_def)
next
  case (2 b acc c cs)
  show ?case
  proof (cases "c = CHR ''_''")
    case True
    show ?thesis
    proof (cases cs)
      case Nil
      with True show ?thesis by (simp add: rest_ok_def)
    next
      case (Cons d ds)
      show ?thesis
      proof (cases "decimal_digit d")
        case False
        with True Cons 2(3) show ?thesis
          by (simp add: rest_ok_def digit_in_decimal digit_groups_Cons)
      next
        case dd: True
        with 2(3) have v: "digit_in b d = Some (of_char d - 48)" by (simp add: digit_in_decimal)
        from "2.IH"(1)[OF True Cons v 2(3)] True Cons dd v 2(3) show ?thesis
          by (simp add: rest_ok_def digit_groups_Cons underscore_no_digit mult.commute)
      qed
    qed
  next
    case False
    show ?thesis
    proof (cases "decimal_digit c")
      case nd: False
      with False 2(3) show ?thesis
        by (simp add: rest_ok_def digit_in_decimal digit_groups_Cons)
    next
      case dd: True
      with 2(3) have v: "digit_in b c = Some (of_char c - 48)" by (simp add: digit_in_decimal)
      from "2.IH"(2)[OF False v 2(3)] False dd v 2(3) show ?thesis
        by (simp add: rest_ok_def digit_groups_Cons mult.commute)
    qed
  qed
qed

lemma parse_number_decimal:
  "parse_number 10 s =
     (if digit_groups s
      then Some (foldl (\<lambda>n c. 10 * n + (of_char c - 48)) 0 (filter decimal_digit s))
      else None)"
  by (cases s) (simp_all add: parse_number_def digit_in_decimal parse_digits_decimal
      digit_groups_Cons)

lemma skip_prefix_decimal: "skip_prefix 10 s = s"
  by (simp add: skip_prefix_def split: list.splits)

lemma filter_dropWhile_disjoint:
  "(\<And>x. Q x \<Longrightarrow> \<not> P x) \<Longrightarrow> filter P (dropWhile Q xs) = filter P xs"
  by (induction xs) auto

lemma blank_no_digit: "blank c \<Longrightarrow> \<not> decimal_digit c"
  by (auto simp add: blank_def decimal_digit_def less_eq_char_def)

lemma filter_digit_trim: "filter decimal_digit (trim s) = filter decimal_digit s"
proof -
  have "filter decimal_digit (trim s) =
        rev (filter decimal_digit (dropWhile blank (rev (dropWhile blank s))))"
    by (simp add: trim_def rev_filter)
  also have "\<dots> = rev (filter decimal_digit (rev (dropWhile blank s)))"
    by (simp add: filter_dropWhile_disjoint blank_no_digit)
  also have "\<dots> = filter decimal_digit (dropWhile blank s)" by (simp add: rev_filter)
  also have "\<dots> = filter decimal_digit s"
    by (simp add: filter_dropWhile_disjoint blank_no_digit)
  finally show ?thesis .
qed

lemma py_int_decimal:
  assumes "CHR ''-'' \<notin> set s"
  shows "py_int 10 s = (if number_text s then Inr (int (number_value s)) else Inl ValueError)"
proof -
  from assms set_strip have nd: "CHR ''-'' \<notin> set (trim s)" by (auto simp add: strip_trim[symmetric])
  show ?thesis
  proof (cases "trim s")
    case Nil
    then show ?thesis
      by (simp add: py_int_def strip_trim split_sign_def number_text_def parse_number_def
          skip_prefix_decimal)
  next
    case (Cons c cs)
    with nd have c: "c \<noteq> CHR ''-''" by auto
    let ?body = "if c = CHR ''+'' then cs else c # cs"
    have sp: "split_sign (strip s) = (False, ?body)"
      using Cons c by (simp add: strip_trim split_sign_def)
    have "filter decimal_digit ?body = filter decimal_digit (trim s)"
      using Cons by (simp add: decimal_digit_def)
    then have val: "foldl (\<lambda>n c. 10 * n + (of_char c - 48)) 0 (filter decimal_digit ?body) =
                    number_value s"
      by (simp only: number_value_def filter_digit_trim)
    have nt: "number_text s = digit_groups ?body" using Cons by (simp add: number_text_def)
    show ?thesis
      unfolding py_int_def sp nt using val
      by (simp add: skip_prefix_decimal parse_number_decimal)
  qed
qed

lemma split_on_ne: "split_on sep s \<noteq> []"
  by (induction s) (auto split: list.splits)

lemma split_on_none: "sep \<notin> set s \<Longrightarrow> split_on sep s = [s]"
  by (induction s) (auto split: list.splits)

lemma split_on_append:
  "sep \<notin> set p \<Longrightarrow> split_on sep (p @ sep # t) = p # split_on sep t"
  by (induction p) (auto split: list.splits simp add: split_on_ne)

lemma split_on_some:
  "sep \<in> set s \<Longrightarrow> \<exists>p q qs. split_on sep s = p # q # qs"
proof -
  assume "sep \<in> set s"
  then obtain p t where s: "s = p @ sep # t" and p: "sep \<notin> set p"
    by (auto dest: split_list_first)
  obtain q qs where "split_on sep t = q # qs"
    using split_on_ne[of sep t] by (cases "split_on sep t") auto
  with s p show ?thesis by (simp add: split_on_append)
qed

lemma take_drop_sep:
  "dropWhile (\<lambda>c. c \<noteq> sep) r = d # b \<Longrightarrow>
     r = takeWhile (\<lambda>c. c \<noteq> sep) r @ sep # b \<and> d = sep"
proof -
  assume a: "dropWhile (\<lambda>c. c \<noteq> sep) r = d # b"
  then have "\<not> (d \<noteq> sep)" using hd_dropWhile[of "\<lambda>c. c \<noteq> sep" r] by auto
  then have "d = sep" by simp
  moreover have "r = takeWhile (\<lambda>c. c \<noteq> sep) r @ dropWhile (\<lambda>c. c \<noteq> sep) r" by simp
  ultimately show ?thesis using a by simp
qed

lemma parse_segment_textual:
  "parse_segment r =
     (case segment_numbers r of
        None \<Rightarrow> Inl ValueError
      | Some (s, e) \<Rightarrow> Inr (int s, int e))"
proof (cases "dropWhile (\<lambda>c. c \<noteq> CHR ''-'') r")
  case Nil
  have sn: "segment_numbers r = None" unfolding segment_numbers_def Nil by simp
  from Nil have "CHR ''-'' \<notin> set r" by (auto simp add: dropWhile_eq_Nil_conv)
  then have "split_on CHR ''-'' r = [r]" by (rule split_on_none)
  with sn show ?thesis by (simp add: parse_segment_def)
next
  case (Cons d b)
  let ?a = "takeWhile (\<lambda>c. c \<noteq> CHR ''-'') r"
  from take_drop_sep[OF Cons] have r: "r = ?a @ CHR ''-'' # b" by simp
  have sn: "segment_numbers r =
              (if CHR ''-'' \<notin> set b \<and> number_text ?a \<and> number_text b
               then Some (number_value ?a, number_value b) else None)"
    unfolding segment_numbers_def Cons by (simp add: Let_def)
  have a: "CHR ''-'' \<notin> set ?a" by (auto dest: set_takeWhileD)
  have sp: "split_on CHR ''-'' r = ?a # split_on CHR ''-'' b"
    by (subst r) (rule split_on_append[OF a])
  show ?thesis
  proof (cases "CHR ''-'' \<in> set b")
    case True
    then obtain p q qs where "split_on CHR ''-'' b = p # q # qs"
      using split_on_some by blast
    with sp True sn show ?thesis
      by (simp add: parse_segment_def)
  next
    case False
    then have "split_on CHR ''-'' b = [b]" by (rule split_on_none)
    with sp have two: "split_on CHR ''-'' r = [?a, b]" by simp
    show ?thesis
      unfolding parse_segment_def two sn
      using False
      by (simp add: py_int_decimal[OF a] py_int_decimal[OF False])
  qed
qed

lemma split_on_join:
  "rs \<noteq> [] \<Longrightarrow> \<forall>r\<in>set rs. sep \<notin> set r \<Longrightarrow> split_on sep (join_with sep rs) = rs"
proof (induction sep rs rule: join_with.induct)
  case (1 sep)
  then show ?case by simp
next
  case (2 sep r)
  then show ?case by (simp add: split_on_none)
next
  case (3 sep r r' rs)
  then show ?case by (simp add: split_on_append)
qed

lemma join_split: "join_with sep (split_on sep s) = s"
proof (induction s)
  case Nil
  then show ?case by simp
next
  case (Cons c cs)
  obtain p ps where sp: "split_on sep cs = p # ps"
    using split_on_ne[of sep cs] by (cases "split_on sep cs") auto
  with Cons show ?case by (cases ps) auto
qed

lemma mark_segments_append:
  "mark_segments (xs @ ys) fm =
     (case mark_segments xs fm of Inl e \<Rightarrow> Inl e | Inr fm' \<Rightarrow> mark_segments ys fm')"
  by (induction xs arbitrary: fm) (auto split: sum.splits)

lemma mark_segment_textual:
  "mark_segment r fm =
     (case segment_numbers r of
        None \<Rightarrow> Inl ValueError
      | Some (s, e) \<Rightarrow> mark_months (int s - 1) (int e) fm)"
  by (simp add: mark_segment_def parse_segment_textual split: option.splits)

lemma paint_none: "(\<And>k. 1 \<le> k \<Longrightarrow> k \<le> 12 \<Longrightarrow> \<not> f k) \<Longrightarrow> paint f fm = fm"
  by (auto simp add: paint_def fun_eq_iff)

lemma paint_paint: "paint g (paint f fm) = paint (\<lambda>k. f k \<or> g k) fm"
  by (auto simp add: paint_def fun_eq_iff)

lemma paint_cong: "(\<And>k. 1 \<le> k \<Longrightarrow> k \<le> 12 \<Longrightarrow> f k = g k) \<Longrightarrow> paint f fm = paint g fm"
  by (auto simp add: paint_def fun_eq_iff)

lemma mark_months_paint:
  assumes "0 \<le> i" "hi \<le> 12"
  shows "mark_months i hi fm = Inr (paint (\<lambda>k. i < int k \<and> int k \<le> hi) fm)"
proof -
  have "(\<exists>j. i \<le> j \<and> j < hi \<and> MONTHS ! nat j = m) \<longleftrightarrow>
        (\<exists>k. 1 \<le> k \<and> k \<le> 12 \<and> (i < int k \<and> int k \<le> hi) \<and> MONTHS ! (k - 1) = m)" for m
  proof
    assume "\<exists>j. i \<le> j \<and> j < hi \<and> MONTHS ! nat j = m"
    then obtain j where j: "i \<le> j" "j < hi" "MONTHS ! nat j = m" by blast
    with assms have "1 \<le> nat j + 1 \<and> nat j + 1 \<le> 12 \<and> (i < int (nat j + 1) \<and> int (nat j + 1) \<le> hi)
          \<and> MONTHS ! (nat j + 1 - 1) = m" by auto
    then show "\<exists>k. 1 \<le> k \<and> k \<le> 12 \<and> (i < int k \<and> int k \<le> hi) \<and> MONTHS ! (k - 1) = m"
      by blast
  next
    assume "\<exists>k. 1 \<le> k \<and> k \<le> 12 \<and> (i < int k \<and> int k \<le> hi) \<and> MONTHS ! (k - 1) = m"
    then obtain k where k: "1 \<le> k" "k \<le> 12" "i < int k" "int k \<le> hi" "MONTHS ! (k - 1) = m"
      by blast
    then have "i \<le> int k - 1 \<and> int k - 1 < hi \<and> MONTHS ! nat (int k - 1) = m"
      by (auto simp add: nat_diff_distrib')
    then show "\<exists>j. i \<le> j \<and> j < hi \<and> MONTHS ! nat j = m" by blast
  qed
  then show ?thesis
    unfolding mark_months_in_range[OF assms] paint_def by simp
qed

lemma mark_months_numbers:
  assumes "e < s \<or> e \<le> 12"
  shows "mark_months (int s - 1) (int e) fm = Inr (paint (segment_flags (s, e)) fm)"
proof -
  consider "e < s" | "1 \<le> s" "s \<le> e" "e \<le> 12" | "s = 0" "e \<le> 12"
    using assms by linarith
  then show ?thesis
  proof cases
    case 1
    then have "paint (segment_flags (s, e)) fm = fm"
      by (intro paint_none) (auto simp add: segment_flags_def)
    with 1 show ?thesis by (simp add: mark_months_empty)
  next
    case 2
    then have "mark_months (int s - 1) (int e) fm =
                 Inr (paint (\<lambda>k. int s - 1 < int k \<and> int k \<le> int e) fm)"
      by (intro mark_months_paint) auto
    also have "paint (\<lambda>k. int s - 1 < int k \<and> int k \<le> int e) fm = paint (segment_flags (s, e)) fm"
      using 2 by (intro paint_cong) (auto simp add: segment_flags_def)
    finally show ?thesis .
  next
    case 3
    have idx: "list_index MONTHS (- 1) = Inr (MONTHS ! 11)"
      using list_index_MONTHS_neg[of "- 1"] by simp
    have "mark_months (int s - 1) (int e) fm = mark_months 0 (int e) (fm(MONTHS ! 11 \<mapsto> True))"
      using 3 idx by (subst mark_months.simps) simp
    also have "\<dots> = Inr (paint (\<lambda>k. 0 < int k \<and> int k \<le> int e) (fm(MONTHS ! 11 \<mapsto> True)))"
      using 3 by (intro mark_months_paint) auto
    also have "fm(MONTHS ! 11 \<mapsto> True) = paint (\<lambda>k. k = 12) fm"
      by (auto simp add: paint_def fun_eq_iff)
    also have "paint (\<lambda>k. 0 < int k \<and> int k \<le> int e) (paint (\<lambda>k. k = 12) fm) =
               paint (segment_flags (s, e)) fm"
      unfolding paint_paint using 3 by (intro paint_cong) (auto simp add: segment_flags_def)
    finally show ?thesis .
  qed
qed

lemma mark_months_over:
  assumes "s \<le> e" "12 < e"
  shows "mark_months (int s - 1) (int e) fm = Inl IndexError"
  using assms by (intro mark_months_overrun) auto

lemma segment_kind: "accepted r \<or> malformed r \<or> overruns r"
  by (auto simp add: accepted_def malformed_def overruns_def split: option.splits)

lemma accepted_not: "accepted r \<Longrightarrow> \<not> malformed r \<and> \<not> overruns r"
  by (auto simp add: accepted_def malformed_def overruns_def split: option.splits)

lemma malformed_not: "malformed r \<Longrightarrow> \<not> overruns r"
  by (auto simp add: malformed_def overruns_def split: option.splits)

lemma mark_segment_accepted:
  "accepted r \<Longrightarrow> mark_segment r fm = Inr (paint (flagged [r]) fm)"
proof -
  assume "accepted r"
  then obtain s e where se: "segment_numbers r = Some (s, e)" "e < s \<or> e \<le> 12"
    by (auto simp add: accepted_def split: option.splits)
  have "flagged [r] = segment_flags (s, e)" by (rule ext) (simp add: flagged_def se)
  with se show ?thesis by (simp add: mark_segment_textual mark_months_numbers)
qed

lemma mark_segment_malformed: "malformed r \<Longrightarrow> mark_segment r fm = Inl ValueError"
  by (simp add: malformed_def mark_segment_textual)

lemma mark_segment_overruns: "overruns r \<Longrightarrow> mark_segment r fm = Inl IndexError"
  by (auto simp add: overruns_def mark_segment_textual mark_months_over split: option.splits)

lemma flagged_Cons: "flagged (r # rs) k = (flagged [r] k \<or> flagged rs k)"
  by (simp add: flagged_def)

lemma mark_segments_find:
  "mark_segments rs fm =
     (case find (\<lambda>r. \<not> accepted r) rs of
        None \<Rightarrow> Inr (paint (flagged rs) fm)
      | Some r \<Rightarrow> Inl (if malformed r then ValueError else IndexError))"
proof (induction rs arbitrary: fm)
  case Nil
  have "paint (flagged []) fm = fm" by (intro paint_none) (simp add: flagged_def)
  then show ?case by simp
next
  case (Cons r rs)
  show ?case
  proof (cases "accepted r")
    case True
    have "paint (flagged rs) (paint (flagged [r]) fm) = paint (flagged (r # rs)) fm"
      unfolding paint_paint by (intro paint_cong) (simp add: flagged_Cons[of r rs])
    with True Cons[of "paint (flagged [r]) fm"] show ?thesis
      by (simp add: mark_segment_accepted split: option.splits)
  next
    case False
    with segment_kind[of r] have "malformed r \<or> overruns r" by simp
    then show ?thesis
    proof
      assume "malformed r"
      with False show ?thesis by (simp add: mark_segment_malformed)
    next
      assume o: "overruns r"
      then have "\<not> malformed r" using malformed_not by blast
      with False o show ?thesis by (simp add: mark_segment_overruns)
    qed
  qed
qed

lemma convert_find:
  assumes "segs \<noteq> []" "\<forall>r\<in>set segs. CHR '';'' \<notin> set r"
  shows "convert_text_range_to_months (join_with CHR '';'' segs) =
     (case find (\<lambda>r. \<not> accepted r) segs of
        None \<Rightarrow> Inr (paint (flagged segs) no_months)
      | Some r \<Rightarrow> Inl (if malformed r then ValueError else IndexError))"
  unfolding convert_text_range_to_months_def split_on_join[OF assms]
  by (rule mark_segments_find)

lemma paint_no_months:
  "dom (paint f no_months) = set MONTHS"
  "1 \<le> k \<Longrightarrow> k \<le> 12 \<Longrightarrow> paint f no_months (MONTHS ! (k - 1)) = Some (f k)"
proof -
  show "dom (paint f no_months) = set MONTHS"
  proof -
    have "MONTHS ! (k - 1) \<in> set MONTHS" if "1 \<le> k" "k \<le> 12" for k
      using that by (intro nth_mem) (simp add: length_MONTHS)
    then show ?thesis
      by (auto simp add: paint_def no_months_apply dom_def split: if_splits)
  qed
  assume k: "1 \<le> k" "k \<le> 12"
  have inj: "k' = k" if "1 \<le> k'" "k' \<le> 12" "MONTHS ! (k' - 1) = MONTHS ! (k - 1)" for k'
  proof -
    from that k have "k' - 1 = k - 1"
      using distinct_MONTHS by (simp add: nth_eq_iff_index_eq length_MONTHS)
    with that k show ?thesis by simp
  qed
  have mem: "MONTHS ! (k - 1) \<in> set MONTHS"
    using k by (intro nth_mem) (simp add: length_MONTHS)
  show "paint f no_months (MONTHS ! (k - 1)) = Some (f k)"
  proof (cases "f k")
    case True
    with k show ?thesis by (auto simp add: paint_def)
  next
    case False
    with inj have "\<not> (\<exists>k'. 1 \<le> k' \<and> k' \<le> 12 \<and> f k' \<and> MONTHS ! (k' - 1) = MONTHS ! (k - 1))"
      by blast
    with False mem show ?thesis by (simp add: paint_def no_months_apply)
  qed
qed

text \<open>
  Claim C1, as the code has it. A range text is its segments joined by \<open>;\<close> (every text
  is: \<open>join_split\<close>). A segment is
  malformed when it is not two numbers around a single dash; it overruns when its numbers
  \<open>start \<le> end\<close> have \<open>end > 12\<close>; otherwise it is accepted. No endpoint is compared with
  1 or 12. The parser raises \<open>ValueError\<close> exactly when the first segment that is not
  accepted is malformed, \<open>IndexError\<close> (from \<open>MONTHS[i]\<close>) exactly when the first segment
  that is not accepted overruns, and returns a calendar exactly when every segment is accepted.
  The calendar then has the twelve labels, and month \<open>k\<close> is flagged exactly when some
  segment has \<open>start \<le> k \<le> end\<close>, or has start 0 and \<open>k = 12\<close> (\<open>MONTHS[-1]\<close>). In
  particular a text whose segments all have both endpoints in 1..12 is parsed without error.
\<close>

theorem range_parser_outcome:
  assumes "segs \<noteq> []" and "\<forall>r\<in>set segs. CHR '';'' \<notin> set r"
  shows "(convert_text_range_to_months (join_with CHR '';'' segs) = Inl ValueError \<longleftrightarrow>
            (\<exists>r. find (\<lambda>r. \<not> accepted r) segs = Some r \<and> malformed r)) \<and>
         (convert_text_range_to_months (join_with CHR '';'' segs) = Inl IndexError \<longleftrightarrow>
            (\<exists>r. find (\<lambda>r. \<not> accepted r) segs = Some r \<and> overruns r)) \<and>
         ((\<exists>fm. convert_text_range_to_months (join_with CHR '';'' segs) = Inr fm) \<longleftrightarrow>
            (\<forall>r\<in>set segs. accepted r)) \<and>
         (\<forall>fm. convert_text_range_to_months (join_with CHR '';'' segs) = Inr fm \<longrightarrow>
            dom fm = set MONTHS \<and>
            (\<forall>k. 1 \<le> k \<and> k \<le> 12 \<longrightarrow> fm (MONTHS ! (k - 1)) = Some (flagged segs k)))"
proof (cases "find (\<lambda>r. \<not> accepted r) segs")
  case None
  then have all: "\<forall>r\<in>set segs. accepted r" by (simp add: find_None_iff)
  have res: "convert_text_range_to_months (join_with CHR '';'' segs) =
               Inr (paint (flagged segs) no_months)"
    using convert_find[OF assms] None by simp
  have cal: "dom (paint (flagged segs) no_months) = set MONTHS \<and>
             (\<forall>k. 1 \<le> k \<and> k \<le> 12 \<longrightarrow>
                paint (flagged segs) no_months (MONTHS ! (k - 1)) = Some (flagged segs k))"
    using paint_no_months by blast
  show ?thesis unfolding res None using all cal by simp
next
  case (Some r)
  then have r: "r \<in> set segs" "\<not> accepted r" by (auto simp add: find_Some_iff)
  then have notall: "\<not> (\<forall>r\<in>set segs. accepted r)" by blast
  have res: "convert_text_range_to_months (join_with CHR '';'' segs) =
               Inl (if malformed r then ValueError else IndexError)"
    using convert_find[OF assms] Some by simp
  from r(2) segment_kind[of r] malformed_not[of r]
  have kind: "malformed r \<and> \<not> overruns r \<or> \<not> malformed r \<and> overruns r" by blast
  show ?thesis unfolding res Some using notall kind by auto
qed

text \<open>\<open>13-14\<close> raises \<open>IndexError\<close>; \<open>5\<close> and \<open>3-5-7\<close> raise \<open>ValueError\<close>; in
  \<open>3-5;13-14;5\<close> the first segment not accepted overruns; \<open>3-5\<close> is parsed; \<open>0-3;13-5\<close>
  is parsed, and flags December and March but not April.\<close>

theorem range_parser_outcome_witness:
  "convert_text_range_to_months ''13-14'' = Inl IndexError \<and>
   convert_text_range_to_months ''5'' = Inl ValueError \<and>
   convert_text_range_to_months ''3-5-7'' = Inl ValueError \<and>
   convert_text_range_to_months ''3-5;13-14;5'' = Inl IndexError \<and>
   (\<exists>fm. convert_text_range_to_months ''3-5'' = Inr fm) \<and>
   (\<exists>fm. convert_text_range_to_months ''0-3;13-5'' = Inr fm \<and> fm ''Dec'' = Some True \<and>
      fm ''Mar'' = Some True \<and> fm ''Apr'' = Some False)"
proof -
  have a: "find (\<lambda>r. \<not> accepted r) [''13-14''] = Some ''13-14''" "overruns ''13-14''"
    by code_simp+
  have b: "find (\<lambda>r. \<not> accepted r) [''5''] = Some ''5''" "malformed ''5''"
    by code_simp+
  have c: "find (\<lambda>r. \<not> accepted r) [''3-5-7''] = Some ''3-5-7''" "malformed ''3-5-7''"
    by code_simp+
  have d: "find (\<lambda>r. \<not> accepted r) [''3-5'', ''13-14'', ''5''] = Some ''13-14''"
    by code_simp
  have e: "accepted ''3-5''" "accepted ''0-3''" "accepted ''13-5''"
    by code_simp+
  have f: "flagged [''0-3'', ''13-5''] 12" "flagged [''0-3'', ''13-5''] 3"
    "\<not> flagged [''0-3'', ''13-5''] 4"
    by code_simp+
  have m: "MONTHS ! (12 - 1) = ''Dec''" "MONTHS ! (3 - 1) = ''Mar''" "MONTHS ! (4 - 1) = ''Apr''"
    by (simp_all add: MONTHS_def)
  have 1: "convert_text_range_to_months ''13-14'' = Inl IndexError"
    using range_parser_outcome[of "[''13-14'']"] a by simp
  have 2: "convert_text_range_to_months ''5'' = Inl ValueError"
    using range_parser_outcome[of "[''5'']"] b by simp
  have 3: "convert_text_range_to_months ''3-5-7'' = Inl ValueError"
    using range_parser_outcome[of "[''3-5-7'']"] c by simp
  have 4: "convert_text_range_to_months ''3-5;13-14;5'' = Inl IndexError"
    using range_parser_outcome[of "[''3-5'', ''13-14'', ''5'']"] d a(2) by simp
  have 5: "\<exists>fm. convert_text_range_to_months ''3-5'' = Inr fm"
    using range_parser_outcome[of "[''3-5'']"] e by simp
  have 6: "\<exists>fm. convert_text_range_to_months ''0-3;13-5'' = Inr fm \<and> fm ''Dec'' = Some True \<and>
      fm ''Mar'' = Some True \<and> fm ''Apr'' = Some False"
  proof -
    have ne: "[''0-3'', ''13-5''] \<noteq> []" "\<forall>r\<in>set [''0-3'', ''13-5'']. CHR '';'' \<notin> set r"
      by simp_all
    note out = range_parser_outcome[OF ne]
    from out[THEN conjunct2, THEN conjunct2, THEN conjunct1] e
    obtain fm where fm: "convert_text_range_to_months (join_with CHR '';'' [''0-3'', ''13-5'']) = Inr fm"
      by auto
    from out[THEN conjunct2, THEN conjunct2, THEN conjunct2, rule_format, OF fm]
    have allk: "\<forall>k. 1 \<le> k \<and> k \<le> 12 \<longrightarrow>
        fm (MONTHS ! (k - 1)) = Some (flagged [''0-3'', ''13-5''] k)"
      by (rule conjunct2)
    have "fm (MONTHS ! (12 - 1)) = Some (flagged [''0-3'', ''13-5''] 12)"
      "fm (MONTHS ! (3 - 1)) = Some (flagged [''0-3'', ''13-5''] 3)"
      "fm (MONTHS ! (4 - 1)) = Some (flagged [''0-3'', ''13-5''] 4)"
      using allk[rule_format, of 12] allk[rule_format, of 3] allk[rule_format, of 4] by simp_all
    with f have "fm ''Dec'' = Some True \<and> fm ''Mar'' = Some True \<and> fm ''Apr'' = Some False"
      unfolding m by simp
    with fm show ?thesis by (intro exI[of _ fm]) simp
  qed
  from 1 2 3 4 5 6 show ?thesis by simp
qed

text \<open>
  The claim fails as stated, with "either endpoint outside 1..12" as the second cause:
  \<open>0-3\<close> has the endpoint 0 and is accepted, flagging December to March, and \<open>13-5\<close>
  has the endpoint 13 and is accepted too.
\<close>

theorem endpoint_outside_counterexample:
  "parse_segment ''0-3'' = Inr (0, 3) \<and>
   \<not> isl (convert_text_range_to_months ''0-3'') \<and>
   map (projr (convert_text_range_to_months ''0-3'')) MONTHS =
     [Some True, Some True, Some True, Some False, Some False, Some False,
      Some False, Some False, Some False, Some False, Some False, Some True] \<and>
   parse_segment ''13-5'' = Inr (13, 5) \<and>
   \<not> isl (convert_text_range_to_months ''13-5'')"
  by code_simp

text \<open>
  Claim C4. For a text made of one or more segments joined by \<open>;\<close>, each of them two
  numbers \<open>start-end\<close> with \<open>1 \<le> start \<le> end \<le> 12\<close>, the parser returns a calendar over
  exactly the twelve month labels, and the label of month \<open>k\<close> (counting from 1) is flagged
  true exactly when \<open>k\<close> lies in the range of at least one segment, and false otherwise.
\<close>

theorem calendar_of_range_text:
  assumes "segs \<noteq> []" and "\<forall>r\<in>set segs. CHR '';'' \<notin> set r"
    and "\<forall>r\<in>set segs. \<exists>s e. segment_numbers r = Some (s, e) \<and> 1 \<le> s \<and> s \<le> e \<and> e \<le> 12"
  shows "\<exists>fm. convert_text_range_to_months (join_with CHR '';'' segs) = Inr fm \<and>
           dom fm = set MONTHS \<and>
           (\<forall>k. 1 \<le> k \<and> k \<le> 12 \<longrightarrow>
              fm (MONTHS ! (k - 1)) =
                Some (\<exists>r\<in>set segs. \<exists>s e. segment_numbers r = Some (s, e) \<and> s \<le> k \<and> k \<le> e))"
proof -
  have acc: "\<forall>r\<in>set segs. accepted r"
    using assms(3) by (fastforce simp add: accepted_def)
  then have "find (\<lambda>r. \<not> accepted r) segs = None" by (simp add: find_None_iff)
  then have res: "convert_text_range_to_months (join_with CHR '';'' segs) =
               Inr (paint (flagged segs) no_months)"
    using convert_find[OF assms(1,2)] by simp
  have fl: "flagged segs k \<longleftrightarrow>
        (\<exists>r\<in>set segs. \<exists>s e. segment_numbers r = Some (s, e) \<and> s \<le> k \<and> k \<le> e)" for k
  proof
    assume "flagged segs k"
    then obtain r se where r: "r \<in> set segs" "segment_numbers r = Some se" "segment_flags se k"
      by (auto simp add: flagged_def list_ex_iff split: option.splits)
    from assms(3) r(1,2) obtain s e where se: "se = (s, e)" "1 \<le> s" by fastforce
    with r(3) have "s \<le> k \<and> k \<le> e" by (simp add: segment_flags_def)
    with r se show "\<exists>r\<in>set segs. \<exists>s e. segment_numbers r = Some (s, e) \<and> s \<le> k \<and> k \<le> e"
      by blast
  next
    assume "\<exists>r\<in>set segs. \<exists>s e. segment_numbers r = Some (s, e) \<and> s \<le> k \<and> k \<le> e"
    then obtain r s e where r: "r \<in> set segs" "segment_numbers r = Some (s, e)" "s \<le> k" "k \<le> e"
      by blast
    then have "case segment_numbers r of None \<Rightarrow> False | Some se \<Rightarrow> segment_flags se k"
      by (simp add: segment_flags_def)
    with r(1) show "flagged segs k" unfolding flagged_def list_ex_iff by (rule bexI[rotated])
  qed
  have cal: "dom (paint (flagged segs) no_months) = set MONTHS \<and>
             (\<forall>k. 1 \<le> k \<and> k \<le> 12 \<longrightarrow>
                paint (flagged segs) no_months (MONTHS ! (k - 1)) = Some (flagged segs k))"
    using paint_no_months by blast
  show ?thesis
    unfolding res using cal by (intro exI[of _ "paint (flagged segs) no_months"]) (simp add: fl)
qed

text \<open>For \<open>3-5\<close> the flags are true for the third, fourth and fifth label only; in
  \<open>1-2;11-12;2-2\<close> a month flagged by one segment stays flagged.\<close>

theorem calendar_of_range_text_witness:
  "(\<exists>fm. convert_text_range_to_months ''3-5'' = Inr fm \<and>
     map fm MONTHS =
       [Some False, Some False, Some True, Some True, Some True, Some False,
        Some False, Some False, Some False, Some False, Some False, Some False]) \<and>
   (\<exists>fm. convert_text_range_to_months ''1-2;11-12;2-2'' = Inr fm \<and>
     map fm MONTHS =
       [Some True, Some True, Some False, Some False, Some False, Some False,
        Some False, Some False, Some False, Some False, Some True, Some True])"
proof -
  have idx: "map fm MONTHS = map (\<lambda>k. fm (MONTHS ! (k - 1))) [1..<13]" for fm :: calendar
    by (simp add: MONTHS_def upt_rec)
  have n1: "segment_numbers ''3-5'' = Some (3, 5)"
    and n2: "segment_numbers ''1-2'' = Some (1, 2)" "segment_numbers ''11-12'' = Some (11, 12)"
      "segment_numbers ''2-2'' = Some (2, 2)"
    by code_simp+
  have A: "\<exists>fm. convert_text_range_to_months ''3-5'' = Inr fm \<and>
     map fm MONTHS =
       [Some False, Some False, Some True, Some True, Some True, Some False,
        Some False, Some False, Some False, Some False, Some False, Some False]"
  proof -
    have h: "[''3-5''] \<noteq> []" "\<forall>r\<in>set [''3-5'']. CHR '';'' \<notin> set r"
      "\<forall>r\<in>set [''3-5'']. \<exists>s e. segment_numbers r = Some (s, e) \<and> 1 \<le> s \<and> s \<le> e \<and> e \<le> 12"
      by (simp_all add: n1)
    from calendar_of_range_text[OF h] obtain fm where
      fm: "convert_text_range_to_months (join_with CHR '';'' [''3-5'']) = Inr fm"
      and flags: "\<forall>k. 1 \<le> k \<and> k \<le> 12 \<longrightarrow> fm (MONTHS ! (k - 1)) =
          Some (\<exists>r\<in>set [''3-5'']. \<exists>s e. segment_numbers r = Some (s, e) \<and> s \<le> k \<and> k \<le> e)"
      by blast
    have "map fm MONTHS =
          map (\<lambda>k. Some (\<exists>r\<in>set [''3-5'']. \<exists>s e. segment_numbers r = Some (s, e) \<and> s \<le> k \<and> k \<le> e))
            [1..<13]"
      unfolding idx using flags by simp
    also have "\<dots> = [Some False, Some False, Some True, Some True, Some True, Some False,
        Some False, Some False, Some False, Some False, Some False, Some False]"
      by (simp add: upt_rec n1)
    finally show ?thesis using fm by (intro exI[of _ fm]) simp
  qed
  have B: "\<exists>fm. convert_text_range_to_months ''1-2;11-12;2-2'' = Inr fm \<and>
     map fm MONTHS =
       [Some True, Some True, Some False, Some False, Some False, Some False,
        Some False, Some False, Some False, Some False, Some True, Some True]"
  proof -
    let ?segs = "[''1-2'', ''11-12'', ''2-2'']"
    have h: "?segs \<noteq> []" "\<forall>r\<in>set ?segs. CHR '';'' \<notin> set r"
      "\<forall>r\<in>set ?segs. \<exists>s e. segment_numbers r = Some (s, e) \<and> 1 \<le> s \<and> s \<le> e \<and> e \<le> 12"
      by (simp_all add: n2)
    from calendar_of_range_text[OF h] obtain fm where
      fm: "convert_text_range_to_months (join_with CHR '';'' ?segs) = Inr fm"
      and flags: "\<forall>k. 1 \<le> k \<and> k \<le> 12 \<longrightarrow> fm (MONTHS ! (k - 1)) =
          Some (\<exists>r\<in>set ?segs. \<exists>s e. segment_numbers r = Some (s, e) \<and> s \<le> k \<and> k \<le> e)"
      by blast
    have "map fm MONTHS =
          map (\<lambda>k. Some (\<exists>r\<in>set ?segs. \<exists>s e. segment_numbers r = Some (s, e) \<and> s \<le> k \<and> k \<le> e))
            [1..<13]"
      unfolding idx using flags by simp
    also have "\<dots> = [Some True, Some True, Some False, Some False, Some False, Some False,
        Some False, Some False, Some False, Some False, Some True, Some True]"
      by (simp add: upt_rec n2)
    finally show ?thesis using fm by (intro exI[of _ fm]) simp
  qed
  from A B show ?thesis by simp
qed

text \<open>
  Claim C5. A segment whose end lies before its start, both in 1..12, is walked over
  \<open>range(start - 1, end)\<close>, which is empty: that turn of the loop returns the calendar as
  it was, without raising, and a text made of this one segment yields the calendar with
  no month flagged.
\<close>

theorem wraparound_segment_marks_nothing:
  assumes "parse_segment r = Inr (start_month, end_month)"
    and "1 \<le> start_month" "start_month \<le> 12" "1 \<le> end_month" "end_month \<le> 12"
    and "end_month < start_month"
  shows "mark_segment r fm = Inr fm \<and>
         (split_on CHR '';'' range_text = [r] \<longrightarrow>
            convert_text_range_to_months range_text = Inr no_months)"
proof -
  have "mark_segment r fm' = Inr fm'" for fm'
    using assms(1,6) by (simp add: mark_segment_def mark_months_empty)
  then show ?thesis by (simp add: convert_text_range_to_months_def)
qed

text \<open>November to February, written \<open>11-2\<close>, flags nothing.\<close>

theorem wraparound_segment_marks_nothing_witness:
  "parse_segment ''11-2'' = Inr (11, 2) \<and>
   mark_segment ''11-2'' no_months = Inr no_months \<and>
   convert_text_range_to_months ''11-2'' = Inr no_months"
proof -
  have sp: "split_on CHR '';'' ''11-2'' = [''11-2'']" and seg: "parse_segment ''11-2'' = Inr (11, 2)"
    by code_simp+
  show ?thesis
    using wraparound_segment_marks_nothing[OF seg, of no_months "''11-2''"] sp seg by simp
qed

section \<open>Properties of the colour codec\<close>

lemma digit_in_16_cases:
  assumes "digit_in 16 c = Some v"
  shows "v < 16 \<and> \<not> py_isspace c \<and> c \<noteq> CHR ''-'' \<and> c \<noteq> CHR ''+'' \<and> c \<noteq> CHR ''_'' \<and>
         c \<noteq> CHR ''x'' \<and> c \<noteq> CHR ''X'' \<and> c \<noteq> CHR ''#''"
  using assms
  by (auto simp add: digit_in_def digit_value_def py_isspace_def Let_def split: if_splits option.splits)

lemma py_int_16_pair:
  assumes "digit_in 16 c = Some v" "digit_in 16 d = Some w"
  shows "py_int 16 [c, d] = Inr (int (v * 16 + w))"
  using digit_in_16_cases[OF assms(1)] digit_in_16_cases[OF assms(2)] assms
  by (simp add: py_int_def strip_def split_sign_def skip_prefix_def parse_number_def)


lemma hex_to_rgb_digits:
  assumes "digit_in 16 c1 = Some v1" "digit_in 16 c2 = Some v2" "digit_in 16 c3 = Some v3"
    "digit_in 16 c4 = Some v4" "digit_in 16 c5 = Some v5" "digit_in 16 c6 = Some v6"
  shows "hex_to_rgb (CHR ''#'' # [c1, c2, c3, c4, c5, c6]) =
           Inr (int (v1 * 16 + v2), int (v3 * 16 + v4), int (v5 * 16 + v6))"
proof -
  have "c1 \<noteq> CHR ''#''" using digit_in_16_cases[OF assms(1)] by simp
  then have "lstrip CHR ''#'' (CHR ''#'' # [c1, c2, c3, c4, c5, c6]) = [c1, c2, c3, c4, c5, c6]"
    by (simp add: lstrip_def)
  then show ?thesis
    using py_int_16_pair[OF assms(1,2)] py_int_16_pair[OF assms(3,4)] py_int_16_pair[OF assms(5,6)]
    by (simp add: hex_to_rgb_def slice_def)
qed

lemma hex_char_digit: "hex_char c \<Longrightarrow> digit_in 16 c = Some (hex_value c) \<and> hex_value c < 16"
proof -
  have "\<forall>c\<in>set ''0123456789abcdefABCDEF''.
          digit_in 16 c = Some (hex_value c) \<and> hex_value c < 16"
    by code_simp
  then show "hex_char c \<Longrightarrow> digit_in 16 c = Some (hex_value c) \<and> hex_value c < 16"
    unfolding hex_char_def by blast
qed

lemma well_formed_colour_channels:
  assumes "well_formed_colour h"
  shows "hex_to_rgb h = Inr (colour_channels h)"
    and "0 \<le> red (colour_channels h) \<and> red (colour_channels h) \<le> 255"
    and "0 \<le> green (colour_channels h) \<and> green (colour_channels h) \<le> 255"
    and "0 \<le> blue (colour_channels h) \<and> blue (colour_channels h) \<le> 255"
proof -
  from assms obtain ds where h: "h = CHR ''#'' # ds" and len: "length ds = 6"
    and dig: "list_all hex_char ds"
    by (auto simp add: well_formed_colour_def split: list.splits)
  from len obtain c1 c2 c3 c4 c5 c6 where ds: "ds = [c1, c2, c3, c4, c5, c6]"
    by (auto simp add: length_Suc_conv eval_nat_numeral)
  from dig ds have v:
    "digit_in 16 c1 = Some (hex_value c1)" "digit_in 16 c2 = Some (hex_value c2)"
    "digit_in 16 c3 = Some (hex_value c3)" "digit_in 16 c4 = Some (hex_value c4)"
    "digit_in 16 c5 = Some (hex_value c5)" "digit_in 16 c6 = Some (hex_value c6)"
    and lt: "hex_value c1 < 16" "hex_value c2 < 16" "hex_value c3 < 16"
    "hex_value c4 < 16" "hex_value c5 < 16" "hex_value c6 < 16"
    by (simp_all add: hex_char_digit)
  have ch: "colour_channels h =
     (int (hex_value c1 * 16 + hex_value c2), int (hex_value c3 * 16 + hex_value c4),
      int (hex_value c5 * 16 + hex_value c6))"
    unfolding h ds by (simp add: colour_channels_def byte_value_def)
  show "hex_to_rgb h = Inr (colour_channels h)"
    unfolding ch unfolding h ds by (rule hex_to_rgb_digits[OF v])
  show "0 \<le> red (colour_channels h) \<and> red (colour_channels h) \<le> 255"
    "0 \<le> green (colour_channels h) \<and> green (colour_channels h) \<le> 255"
    "0 \<le> blue (colour_channels h) \<and> blue (colour_channels h) \<le> 255"
    unfolding ch using lt by (simp_all add: red_def green_def blue_def)
qed

lemma well_formed_colour_decodes:
  assumes "well_formed_colour h"
  shows "\<exists>r g b. hex_to_rgb h = Inr (r, g, b) \<and> 0 \<le> r \<and> r \<le> 255 \<and> 0 \<le> g \<and> g \<le> 255 \<and>
           0 \<le> b \<and> b \<le> 255"
proof -
  obtain r g b where c: "colour_channels h = (r, g, b)" by (cases "colour_channels h")
  with well_formed_colour_channels[OF assms] show ?thesis
    by (simp add: red_def green_def blue_def)
qed

lemma hex_digit_lower: "k < 16 \<Longrightarrow> lower_hex_digit (hex_digit k)"
  unfolding hex_digit_def lower_hex_digit_def by (rule nth_mem) simp

lemma digit_in_hex_digit: "k < 16 \<Longrightarrow> digit_in 16 (hex_digit k) = Some k"
proof -
  have "\<forall>k\<in>set [0..<16]. digit_in 16 (hex_digit k) = Some k"
    by code_simp
  then show "k < 16 \<Longrightarrow> digit_in 16 (hex_digit k) = Some k"
    by simp
qed

lemma format_02x_byte:
  assumes "0 \<le> n" "n \<le> 255"
  shows "format_02x n = [hex_digit (nat n div 16), hex_digit (nat n mod 16)]"
proof (cases "nat n < 16")
  case True
  then have "hex_digits (nat \<bar>n\<bar>) = [hex_digit (nat n)]"
    using assms by (subst hex_digits.simps) simp
  moreover have "hex_digit 0 = CHR ''0''" by (simp add: hex_digit_def)
  ultimately show ?thesis using True assms by (simp add: format_02x_def)
next
  case False
  with assms have "nat n div 16 < 16" by simp
  then have "hex_digits (nat n div 16) = [hex_digit (nat n div 16)]"
    by (subst hex_digits.simps) simp
  with False have "hex_digits (nat \<bar>n\<bar>) = [hex_digit (nat n div 16), hex_digit (nat n mod 16)]"
    using assms by (subst hex_digits.simps) simp
  with assms show ?thesis by (simp add: format_02x_def)
qed

lemma rgb_to_hex_bytes:
  assumes "0 \<le> r" "r \<le> 255" "0 \<le> g" "g \<le> 255" "0 \<le> b" "b \<le> 255"
  shows "lowercase_hex_colour (rgb_to_hex (r, g, b))"
    and "hex_to_rgb (rgb_to_hex (r, g, b)) = Inr (r, g, b)"
proof -
  let ?d = "\<lambda>n. hex_digit (nat n div 16)" and ?e = "\<lambda>n. hex_digit (nat n mod 16)"
  have out: "rgb_to_hex (r, g, b) = CHR ''#'' # [?d r, ?e r, ?d g, ?e g, ?d b, ?e b]"
    using assms by (simp add: rgb_to_hex_def red_def green_def blue_def format_02x_byte)
  have hi: "nat r div 16 < 16" "nat g div 16 < 16" "nat b div 16 < 16"
    using assms by simp_all
  have lo: "nat r mod 16 < 16" "nat g mod 16 < 16" "nat b mod 16 < 16"
    by simp_all
  show "lowercase_hex_colour (rgb_to_hex (r, g, b))"
    unfolding out lowercase_hex_colour_def using hi lo by (simp add: hex_digit_lower)
  have "hex_to_rgb (rgb_to_hex (r, g, b)) =
          Inr (int (nat r div 16 * 16 + nat r mod 16), int (nat g div 16 * 16 + nat g mod 16),
               int (nat b div 16 * 16 + nat b mod 16))"
    unfolding out
    by (rule hex_to_rgb_digits) (use hi lo in \<open>simp_all add: digit_in_hex_digit\<close>)
  then show "hex_to_rgb (rgb_to_hex (r, g, b)) = Inr (r, g, b)"
    using assms by simp
qed

lemma lowercase_well_formed: "lowercase_hex_colour h \<Longrightarrow> well_formed_colour h"
proof -
  have "\<forall>d\<in>set ''0123456789abcdef''. hex_char d" by code_simp
  then have "lower_hex_digit d \<Longrightarrow> hex_char d" for d
    unfolding lower_hex_digit_def by blast
  then show "lowercase_hex_colour h \<Longrightarrow> well_formed_colour h"
    by (auto simp add: lowercase_hex_colour_def well_formed_colour_def list_all_iff
        split: list.splits)
qed

lemma colour_channels_rgb_to_hex:
  assumes "0 \<le> r" "r \<le> 255" "0 \<le> g" "g \<le> 255" "0 \<le> b" "b \<le> 255"
  shows "colour_channels (rgb_to_hex (r, g, b)) = (r, g, b)"
proof -
  have "well_formed_colour (rgb_to_hex (r, g, b))"
    using rgb_to_hex_bytes(1)[OF assms] by (rule lowercase_well_formed)
  from well_formed_colour_channels(1)[OF this] rgb_to_hex_bytes(2)[OF assms]
  show ?thesis by simp
qed

section \<open>Properties of the collecting loop\<close>

lemma prominence_weights_cases:
  "prominence_weights p = Some w \<Longrightarrow> w = 1 \<or> w = 2 \<or> w = 3"
  by (auto simp add: prominence_weights_def split: if_splits)

lemma dom_prominence_weights: "dom prominence_weights = {''low'', ''med'', ''high''}"
  by (auto simp add: prominence_weights_def split: if_splits)

lemma gather_skip: "\<not> contributes row \<Longrightarrow> gather (row # rows) = gather rows"
  by (auto simp add: contributes_def split: option.splits)

lemma gather_take:
  "colour row = Some h \<Longrightarrow> prominence row = Some p \<Longrightarrow>
   gather (row # rows) =
     (case hex_to_rgb h of
        Inl e \<Rightarrow> Inl e
      | Inr c \<Rightarrow>
          (case prominence_weights p of
             None \<Rightarrow> Inl KeyError
           | Some w \<Rightarrow>
               (case gather rows of
                  Inl e \<Rightarrow> Inl e
                | Inr (colors, weights) \<Rightarrow> Inr (c # colors, w # weights))))"
  by simp

declare gather.simps(2) [simp del]

lemma gather_none: "\<forall>row\<in>set grp. \<not> contributes row \<Longrightarrow> gather grp = Inr ([], [])"
  by (induction grp) (simp_all add: gather_skip)

lemma gather_result:
  "gather grp = Inr (colors, weights) \<Longrightarrow>
     length colors = length weights \<and> (\<forall>w\<in>set weights. 1 \<le> w) \<and>
     (colors = [] \<longleftrightarrow> (\<forall>row\<in>set grp. \<not> contributes row))"
proof (induction grp arbitrary: colors weights)
  case Nil
  then show ?case by simp
next
  case (Cons row rows)
  show ?case
  proof (cases "contributes row")
    case False
    with Cons show ?thesis by (simp add: gather_skip)
  next
    case True
    then obtain h p where hp: "colour row = Some h" "prominence row = Some p"
      by (auto simp add: contributes_def)
    from Cons.prems hp obtain c w cs ws where
      c: "hex_to_rgb h = Inr c" and w: "prominence_weights p = Some w"
      and rest: "gather rows = Inr (cs, ws)" and res: "colors = c # cs" "weights = w # ws"
      by (auto simp add: gather_take split: sum.splits option.splits)
    from Cons.IH[OF rest] have "length cs = length ws" "\<forall>w\<in>set ws. 1 \<le> w" by simp_all
    moreover have "1 \<le> w" using prominence_weights_cases[OF w] by auto
    ultimately show ?thesis using res True by auto
  qed
qed

lemma gather_contributions:
  assumes "\<forall>row\<in>set grp. contributes row \<longrightarrow> contribution row \<noteq> None"
  shows "gather grp = Inr (map fst (contributions grp), map snd (contributions grp))"
  using assms
proof (induction grp)
  case Nil
  then show ?case by (simp add: contributions_def map_filter_simps)
next
  case (Cons row rows)
  then have IH: "gather rows = Inr (map fst (contributions rows), map snd (contributions rows))"
    by simp
  show ?case
  proof (cases "contributes row")
    case False
    then have "contribution row = None"
      by (auto simp add: contributes_def contribution_def split: option.splits)
    with False IH show ?thesis
      by (simp add: gather_skip contributions_def map_filter_simps)
  next
    case True
    with Cons.prems obtain c w where cw: "contribution row = Some (c, w)" by auto
    then obtain h p where "colour row = Some h" "prominence row = Some p"
      "hex_to_rgb h = Inr c" "prominence_weights p = Some w"
      by (auto simp add: contribution_def split: option.splits sum.splits)
    with IH cw show ?thesis
      by (simp add: gather_take contributions_def map_filter_simps)
  qed
qed

lemma gather_raises_KeyError:
  assumes "row \<in> set grp" "colour row = Some h" "prominence row = Some p"
    and "prominence_weights p = None"
    and "\<forall>row'\<in>set grp. \<forall>h'. colour row' = Some h' \<and> prominence row' \<noteq> None \<longrightarrow>
           \<not> isl (hex_to_rgb h')"
  shows "gather grp = Inl KeyError"
  using assms
proof (induction grp)
  case Nil
  then show ?case by simp
next
  case (Cons r rows)
  show ?case
  proof (cases "contributes r")
    case False
    with Cons have "row \<in> set rows" by (auto simp add: contributes_def)
    with Cons False show ?thesis by (simp add: gather_skip)
  next
    case True
    then obtain h' p' where hp: "colour r = Some h'" "prominence r = Some p'"
      by (auto simp add: contributes_def)
    with Cons.prems(5) obtain c where c: "hex_to_rgb h' = Inr c"
      by (cases "hex_to_rgb h'") auto
    show ?thesis
    proof (cases "prominence_weights p'")
      case None
      with hp c show ?thesis by (simp add: gather_take)
    next
      case (Some w)
      with Cons.prems hp have "row \<in> set rows" by auto
      with Cons have "gather rows = Inl KeyError" by simp
      with hp c Some show ?thesis by (simp add: gather_take)
    qed
  qed
qed

lemma gather_raises:
  assumes "row \<in> set grp" "colour row = Some h" "prominence row = Some p"
    and "prominence_weights p = None"
  shows "isl (gather grp)"
  using assms
proof (induction grp)
  case Nil
  then show ?case by simp
next
  case (Cons r rows)
  show ?case
  proof (cases "r = row")
    case True
    with Cons.prems show ?thesis by (simp add: gather_take split: sum.splits)
  next
    case False
    with Cons have "isl (gather rows)" by simp
    then obtain e where "gather rows = Inl e" by (cases "gather rows") auto
    then show ?thesis
      by (cases "contributes r")
        (auto simp add: gather_skip gather_take contributes_def split: option.splits sum.splits)
  qed
qed


section \<open>Properties of the blend\<close>

lemma sum_list_ge_one:
  fixes ws :: "real list"
  assumes "\<forall>w\<in>set ws. 1 \<le> w" "ws \<noteq> []"
  shows "0 < sum_list ws"
proof -
  from assms(2) obtain w ws' where ws: "ws = w # ws'" by (cases ws) auto
  with assms(1) have "1 \<le> w" "\<forall>v\<in>set ws'. 0 \<le> v" by auto
  then have "0 \<le> sum_list ws'" by (simp add: sum_list_nonneg)
  with \<open>1 \<le> w\<close> ws show ?thesis by simp
qed

lemma blend_None_iff_gather:
  "blend_colors_with_prominence grp = Inr None \<longleftrightarrow>
     (\<exists>colors weights. gather grp = Inr (colors, weights) \<and> colors = [])"
proof (cases "gather grp")
  case (Inl e)
  then show ?thesis by (simp add: blend_colors_with_prominence_def)
next
  case (Inr cw)
  obtain colors weights where cw: "cw = (colors, weights)" by (cases cw)
  from gather_result[of grp colors weights] Inr cw
  have len: "length colors = length weights" and pos: "\<forall>w\<in>set weights. 1 \<le> w" by simp_all
  show ?thesis
  proof (cases "colors = []")
    case True
    with Inr cw show ?thesis by (simp add: blend_colors_with_prominence_def)
  next
    case False
    with len have "weights \<noteq> []" by auto
    with pos have "0 < sum_list weights" by (rule sum_list_ge_one)
    with Inr cw False show ?thesis
      by (simp add: blend_colors_with_prominence_def Let_def)
  qed
qed

lemma well_formed_contribution:
  assumes "well_formed_row row" "contributes row"
  shows "\<exists>h p r g b w. colour row = Some h \<and> prominence row = Some p \<and>
           hex_to_rgb h = Inr (r, g, b) \<and> prominence_weights p = Some w \<and>
           contribution row = Some ((r, g, b), w) \<and>
           0 \<le> r \<and> r \<le> 255 \<and> 0 \<le> g \<and> g \<le> 255 \<and> 0 \<le> b \<and> b \<le> 255 \<and>
           (w = 1 \<or> w = 2 \<or> w = 3)"
proof -
  from assms(2) obtain h p where hp: "colour row = Some h" "prominence row = Some p"
    by (auto simp add: contributes_def)
  with assms(1) have wf: "well_formed_colour h" and p: "p \<in> {''low'', ''med'', ''high''}"
    by (simp_all add: well_formed_row_def)
  from well_formed_colour_decodes[OF wf] obtain r g b where
    dec: "hex_to_rgb h = Inr (r, g, b)" and
    bnd: "0 \<le> r" "r \<le> 255" "0 \<le> g" "g \<le> 255" "0 \<le> b" "b \<le> 255" by blast
  from p have "p \<in> dom prominence_weights" by (simp add: dom_prominence_weights)
  then obtain w where w: "prominence_weights p = Some w" by blast
  from prominence_weights_cases[OF w] have w3: "w = 1 \<or> w = 2 \<or> w = 3" .
  have "contribution row = Some ((r, g, b), w)"
    by (simp add: contribution_def hp dec w)
  with hp dec w bnd w3 show ?thesis by blast
qed

lemma not_contributes_contribution: "\<not> contributes row \<Longrightarrow> contribution row = None"
  by (auto simp add: contributes_def contribution_def split: option.splits)

lemma contribution_contributes: "contribution row = Some cw \<Longrightarrow> contributes row"
  using not_contributes_contribution by fastforce

lemma set_contributions:
  "set (contributions grp) = {cw. \<exists>row\<in>set grp. contribution row = Some cw}"
  unfolding contributions_def
  by (induction grp) (auto simp add: map_filter_simps split: option.splits)

lemma sum_list_map_filter:
  fixes g :: "'b \<Rightarrow> 'c::monoid_add"
  shows "sum_list (map g (List.map_filter f xs)) =
         sum_list (map (\<lambda>x. case f x of None \<Rightarrow> 0 | Some y \<Rightarrow> g y) xs)"
  by (induction xs) (simp_all add: map_filter_simps split: option.splits)

lemma weighted_sum_contributions:
  "weighted_sum channel (map fst (contributions grp)) (map snd (contributions grp)) =
     numerator channel grp"
proof -
  have "weighted_sum channel (map fst (contributions grp)) (map snd (contributions grp)) =
        sum_list (map (\<lambda>(c, w). of_int (channel c) * w) (contributions grp))"
    by (simp add: weighted_sum_def zip_map_fst_snd)
  also have "\<dots> = numerator channel grp"
    unfolding contributions_def numerator_def sum_list_map_filter
    by (rule arg_cong[where f = sum_list], rule map_cong) (auto split: option.splits)
  finally show ?thesis .
qed

lemma total_weight_contributions:
  "sum_list (map snd (contributions grp)) = denominator grp"
  unfolding contributions_def denominator_def sum_list_map_filter
  by (rule arg_cong[where f = sum_list], rule map_cong) (auto split: option.splits)

lemma contributions_empty_iff:
  assumes "\<forall>row\<in>set grp. well_formed_row row"
  shows "contributions grp = [] \<longleftrightarrow> (\<forall>row\<in>set grp. \<not> contributes row)"
proof
  assume e: "contributions grp = []"
  show "\<forall>row\<in>set grp. \<not> contributes row"
  proof
    fix row assume r: "row \<in> set grp"
    show "\<not> contributes row"
    proof
      assume "contributes row"
      with assms r obtain cw where "contribution row = Some cw"
        using well_formed_contribution by blast
      with r have "cw \<in> set (contributions grp)" by (auto simp add: set_contributions)
      with e show False by simp
    qed
  qed
next
  assume "\<forall>row\<in>set grp. \<not> contributes row"
  then have "set (contributions grp) = {}"
    by (auto simp add: set_contributions dest: contribution_contributes)
  then show "contributions grp = []" by simp
qed

lemma denominator_pos:
  assumes "\<forall>row\<in>set grp. well_formed_row row" "\<exists>row\<in>set grp. contributes row"
  shows "0 < denominator grp"
proof -
  from assms have ne: "contributions grp \<noteq> []" by (simp add: contributions_empty_iff)
  have "\<forall>w\<in>set (map snd (contributions grp)). 1 \<le> w"
  proof
    fix w assume "w \<in> set (map snd (contributions grp))"
    then obtain c row where r: "row \<in> set grp" "contribution row = Some (c, w)"
      by (auto simp add: set_contributions)
    from r(2) have "contributes row" by (rule contribution_contributes)
    with assms(1) r show "1 \<le> w" using well_formed_contribution[of row] by fastforce
  qed
  with ne have "0 < sum_list (map snd (contributions grp))"
    by (intro sum_list_ge_one) simp_all
  then show ?thesis by (simp add: total_weight_contributions)
qed

lemma blend_well_formed:
  assumes "\<forall>row\<in>set grp. well_formed_row row"
  shows "blend_colors_with_prominence grp =
     (if \<forall>row\<in>set grp. \<not> contributes row then Inr None
      else Inr (Some (rgb_to_hex (py_trunc (numerator red grp / denominator grp),
                                  py_trunc (numerator green grp / denominator grp),
                                  py_trunc (numerator blue grp / denominator grp)))))"
proof -
  have "\<forall>row\<in>set grp. contributes row \<longrightarrow> contribution row \<noteq> None"
    using assms well_formed_contribution by fastforce
  then have g: "gather grp = Inr (map fst (contributions grp), map snd (contributions grp))"
    by (rule gather_contributions)
  show ?thesis
  proof (cases "\<forall>row\<in>set grp. \<not> contributes row")
    case True
    with assms have "contributions grp = []" by (simp add: contributions_empty_iff)
    with g True show ?thesis by (simp add: blend_colors_with_prominence_def)
  next
    case False
    with assms have ne: "contributions grp \<noteq> []" by (simp add: contributions_empty_iff)
    from False assms have "0 < denominator grp" by (intro denominator_pos) auto
    then have nz: "sum_list (map snd (contributions grp)) \<noteq> 0"
      by (simp add: total_weight_contributions)
    from False have F: "(\<forall>row\<in>set grp. \<not> contributes row) = False" by simp
    show ?thesis
      unfolding blend_colors_with_prominence_def g F
      using ne nz
      by (simp add: Let_def weighted_sum_contributions total_weight_contributions)
  qed
qed

lemma sum_list_map_mset:
  fixes f :: "'a \<Rightarrow> real"
  assumes "mset xs = mset ys"
  shows "sum_list (map f xs) = sum_list (map f ys)"
proof -
  have "sum_list (map f xs) = sum_mset (image_mset f (mset xs))"
    by (simp only: sum_mset_sum_list[symmetric] mset_map)
  also have "\<dots> = sum_mset (image_mset f (mset ys))" by (simp only: assms)
  also have "\<dots> = sum_list (map f ys)"
    by (simp only: sum_mset_sum_list[symmetric] mset_map)
  finally show ?thesis .
qed

lemma numerator_mset: "mset grp' = mset grp \<Longrightarrow> numerator channel grp' = numerator channel grp"
  unfolding numerator_def by (rule sum_list_map_mset)

lemma denominator_mset: "mset grp' = mset grp \<Longrightarrow> denominator grp' = denominator grp"
  unfolding denominator_def by (rule sum_list_map_mset)

lemma blend_mset:
  assumes "\<forall>row\<in>set grp. well_formed_row row" "mset grp' = mset grp"
  shows "blend_colors_with_prominence grp' = blend_colors_with_prominence grp"
proof -
  from assms(2) have s: "set grp' = set grp" by (rule mset_eq_setD)
  with assms(1) have wf': "\<forall>row\<in>set grp'. well_formed_row row" by simp
  show ?thesis
    unfolding blend_well_formed[OF assms(1)] blend_well_formed[OF wf'] s
      numerator_mset[OF assms(2)] denominator_mset[OF assms(2)] ..
qed

lemma row_weight_nonneg: "0 \<le> row_weight row"
  using prominence_weights_cases
  by (fastforce simp add: row_weight_def split: option.splits)

lemma total_weight_nonneg: "0 \<le> total_weight grp"
  unfolding total_weight_def by (rule sum_list_nonneg) (auto simp add: row_weight_nonneg)

lemma total_weight_gather:
  "gather grp = Inr (colors, weights) \<Longrightarrow> sum_list weights = total_weight grp"
proof (induction grp arbitrary: colors weights)
  case Nil
  then show ?case by (simp add: total_weight_def)
next
  case (Cons row rows)
  show ?case
  proof (cases "contributes row")
    case False
    then have "row_weight row = 0"
      by (auto simp add: contributes_def row_weight_def split: option.splits)
    with Cons False show ?thesis by (simp add: gather_skip total_weight_def)
  next
    case True
    then obtain h p where hp: "colour row = Some h" "prominence row = Some p"
      by (auto simp add: contributes_def)
    from Cons.prems obtain c w cs ws where
      w: "prominence_weights p = Some w" and rest: "gather rows = Inr (cs, ws)"
      and out: "weights = w # ws"
      by (auto simp add: gather_take[OF hp] split: sum.splits option.splits)
    from w hp have "row_weight row = w" by (simp add: row_weight_def)
    with Cons.IH[OF rest] out show ?thesis by (simp add: total_weight_def)
  qed
qed

lemma total_weight_pos:
  assumes "\<not> isl (gather grp)" "row \<in> set grp" "contributes row"
  shows "0 < total_weight grp"
proof -
  from assms(3) obtain h p where hp: "colour row = Some h" "prominence row = Some p"
    by (auto simp add: contributes_def)
  have "prominence_weights p \<noteq> None"
  proof
    assume "prominence_weights p = None"
    from gather_raises[OF assms(2) hp this] assms(1) show False by simp
  qed
  then obtain w where w: "prominence_weights p = Some w" by blast
  with prominence_weights_cases have "1 \<le> w" by fastforce
  with hp w have one: "1 \<le> row_weight row" by (simp add: row_weight_def)
  from assms(2) obtain pre post where grp: "grp = pre @ row # post"
    by (auto simp add: in_set_conv_decomp)
  have "0 \<le> total_weight pre" "0 \<le> total_weight post" by (rule total_weight_nonneg)+
  with one show ?thesis unfolding grp total_weight_def by simp
qed

lemma blend_None_iff:
  "blend_colors_with_prominence grp = Inr None \<longleftrightarrow> (\<forall>row\<in>set grp. \<not> contributes row)"
proof
  assume "blend_colors_with_prominence grp = Inr None"
  then obtain colors weights where g: "gather grp = Inr (colors, weights)" "colors = []"
    using blend_None_iff_gather by blast
  with gather_result[OF g(1)] show "\<forall>row\<in>set grp. \<not> contributes row" by simp
next
  assume "\<forall>row\<in>set grp. \<not> contributes row"
  then have "gather grp = Inr ([], [])" by (rule gather_none)
  then show "blend_colors_with_prominence grp = Inr None"
    by (simp add: blend_None_iff_gather)
qed

lemma isl_blend_gather: "isl (blend_colors_with_prominence grp) \<longleftrightarrow> isl (gather grp)"
  by (auto simp add: blend_colors_with_prominence_def Let_def split: sum.splits prod.splits)

text \<open>Claim C6. \<open>blend_colors_with_prominence\<close> returns \<open>None\<close> exactly when the group is
  empty, or the run reaches the total weight and that is zero, or no row has both a colour and
  a prominence. The total weight is the sum of the weights of the rows that have both
  (\<open>total_weight_gather\<close>); as soon as one row has both, the result is not \<open>None\<close>, and the
  total weight is positive whenever the loop finishes.\<close>

theorem blend_absent_iff:
  "(blend_colors_with_prominence grp = Inr None \<longleftrightarrow>
      grp = [] \<or>
      (\<not> isl (blend_colors_with_prominence grp) \<and> total_weight grp = 0) \<or>
      (\<forall>row\<in>set grp. colour row = None \<or> prominence row = None)) \<and>
   (\<forall>row\<in>set grp. colour row \<noteq> None \<and> prominence row \<noteq> None \<longrightarrow>
      blend_colors_with_prominence grp \<noteq> Inr None \<and>
      (\<not> isl (blend_colors_with_prominence grp) \<longrightarrow> 0 < total_weight grp))"
proof -
  have none: "(\<forall>row\<in>set grp. colour row = None \<or> prominence row = None) \<longleftrightarrow>
              (\<forall>row\<in>set grp. \<not> contributes row)"
    by (simp add: contributes_def)
  have pos: "0 < total_weight grp"
    if "row \<in> set grp" "contributes row" "\<not> isl (blend_colors_with_prominence grp)" for row
    using total_weight_pos[of grp row] that by (simp add: isl_blend_gather)
  have A: "blend_colors_with_prominence grp = Inr None \<longleftrightarrow>
      grp = [] \<or>
      (\<not> isl (blend_colors_with_prominence grp) \<and> total_weight grp = 0) \<or>
      (\<forall>row\<in>set grp. colour row = None \<or> prominence row = None)"
  proof (cases "\<forall>row\<in>set grp. \<not> contributes row")
    case True
    with none show ?thesis by (simp add: blend_None_iff)
  next
    case False
    then obtain row where row: "row \<in> set grp" "contributes row" by blast
    then have ne: "grp \<noteq> []" by auto
    have mid: "\<not> (\<not> isl (blend_colors_with_prominence grp) \<and> total_weight grp = 0)"
      using pos[OF row] by auto
    from False have lhs: "blend_colors_with_prominence grp \<noteq> Inr None"
      by (simp add: blend_None_iff)
    from False none have "\<not> (\<forall>row\<in>set grp. colour row = None \<or> prominence row = None)"
      by simp
    with lhs ne mid show ?thesis by blast
  qed
  have B: "blend_colors_with_prominence grp \<noteq> Inr None \<and>
      (\<not> isl (blend_colors_with_prominence grp) \<longrightarrow> 0 < total_weight grp)"
    if "row \<in> set grp" "colour row \<noteq> None \<and> prominence row \<noteq> None" for row
  proof -
    from that have c: "contributes row" by (simp add: contributes_def)
    with that(1) have "blend_colors_with_prominence grp \<noteq> Inr None"
      by (auto simp add: blend_None_iff)
    with pos[OF that(1) c] show ?thesis by simp
  qed
  from A B show ?thesis by simp
qed

text \<open>The empty group and a group whose only row has no colour both give \<open>None\<close>, not a
  colour such as black; a group with one red row of high prominence gives a colour.\<close>

theorem blend_absent_iff_witness:
  "blend_colors_with_prominence [] = Inr None \<and>
   blend_colors_with_prominence [row_missing_colour] = Inr None \<and>
   blend_colors_with_prominence [row_missing_colour] \<noteq> Inr (Some ''#000000'') \<and>
   blend_colors_with_prominence [row_missing_colour, row_red_high] \<noteq> Inr None \<and>
   0 < total_weight [row_missing_colour, row_red_high]"
proof -
  have ok: "blend_colors_with_prominence [row_missing_colour, row_red_high] =
              Inr (Some ''#ff0000'')"
    by code_simp
  have "\<forall>row\<in>set [row_missing_colour]. colour row = None \<or> prominence row = None"
    by (simp add: row_missing_colour_def)
  moreover have "row_red_high \<in> set [row_missing_colour, row_red_high]"
    "colour row_red_high \<noteq> None \<and> prominence row_red_high \<noteq> None"
    by (simp_all add: row_red_high_def)
  ultimately show ?thesis
    using blend_absent_iff[of "[row_missing_colour]"] blend_absent_iff[of "[]"]
      blend_absent_iff[of "[row_missing_colour, row_red_high]"] ok
    by auto
qed

text \<open>Claim C9. A row with a colour and a prominence outside \<open>low\<close>, \<open>med\<close>, \<open>high\<close> makes
  \<open>blend_colors_with_prominence\<close> raise; no default weight is used. The exception is the
  \<open>KeyError\<close> of the dictionary lookup whenever the colours of the rows decode (a colour that
  does not decode raises \<open>ValueError\<close>, and may do so first).\<close>

theorem unrecognized_prominence_raises:
  assumes "row \<in> set grp" and "colour row = Some h" and "prominence row = Some p"
    and "p \<notin> {''low'', ''med'', ''high''}"
  shows "isl (blend_colors_with_prominence grp) \<and>
         ((\<forall>row'\<in>set grp. \<forall>h'. colour row' = Some h' \<and> prominence row' \<noteq> None \<longrightarrow>
              \<not> isl (hex_to_rgb h')) \<longrightarrow>
          blend_colors_with_prominence grp = Inl KeyError)"
proof -
  from assms(4) have nw: "prominence_weights p = None"
    using dom_prominence_weights by blast
  have "isl (gather grp)" using gather_raises[OF assms(1-3) nw] .
  then obtain e where "gather grp = Inl e" by (cases "gather grp") auto
  then have a: "isl (blend_colors_with_prominence grp)"
    by (simp add: blend_colors_with_prominence_def)
  have b: "blend_colors_with_prominence grp = Inl KeyError"
    if "\<forall>row'\<in>set grp. \<forall>h'. colour row' = Some h' \<and> prominence row' \<noteq> None \<longrightarrow>
              \<not> isl (hex_to_rgb h')"
    using gather_raises_KeyError[OF assms(1-3) nw that]
    by (simp add: blend_colors_with_prominence_def)
  from a b show ?thesis by blast
qed

text \<open>The prominence \<open>High\<close> is not a key of \<open>prominence_weights\<close>.\<close>

theorem unrecognized_prominence_raises_witness:
  "blend_colors_with_prominence [row_prominence_High] = Inl KeyError"
proof -
  have dec: "hex_to_rgb ''#ff4500'' = Inr (255, 69, 0)" by code_simp
  have "row_prominence_High \<in> set [row_prominence_High]" by simp
  moreover have "colour row_prominence_High = Some ''#ff4500''"
    "prominence row_prominence_High = Some ''High''"
    by (simp_all add: row_prominence_High_def)
  moreover have "''High'' \<notin> {''low'', ''med'', ''high''}" by simp
  ultimately have "(\<forall>row'\<in>set [row_prominence_High]. \<forall>h'. colour row' = Some h' \<and>
        prominence row' \<noteq> None \<longrightarrow> \<not> isl (hex_to_rgb h')) \<longrightarrow>
      blend_colors_with_prominence [row_prominence_High] = Inl KeyError"
    using unrecognized_prominence_raises[of row_prominence_High "[row_prominence_High]"
        "''#ff4500''" "''High''"] by blast
  moreover have "\<forall>row'\<in>set [row_prominence_High]. \<forall>h'. colour row' = Some h' \<and>
        prominence row' \<noteq> None \<longrightarrow> \<not> isl (hex_to_rgb h')"
    by (simp add: row_prominence_High_def dec)
  ultimately show ?thesis by blast
qed

section \<open>The blend as a weighted mean\<close>

lemma prominence_weights_spec:
  "p \<in> {''low'', ''med'', ''high''} \<Longrightarrow>
     prominence_weights p = Some (of_int (spec_weight p)) \<and> 1 \<le> spec_weight p \<and> spec_weight p \<le> 3"
  by (auto simp add: prominence_weights_def spec_weight_def)

lemma contribution_sample:
  assumes "well_formed_row row"
  shows "contribution row = map_option (\<lambda>(c, w). (c, of_int w)) (row_sample row)"
proof (cases "contributes row")
  case False
  then show ?thesis
    by (auto simp add: contributes_def contribution_def row_sample_def split: option.splits)
next
  case True
  then obtain h p where hp: "colour row = Some h" "prominence row = Some p"
    by (auto simp add: contributes_def)
  with assms have wf: "well_formed_colour h" and p: "p \<in> {''low'', ''med'', ''high''}"
    by (simp_all add: well_formed_row_def)
  from well_formed_colour_channels(1)[OF wf] prominence_weights_spec[OF p] hp
  show ?thesis by (simp add: contribution_def row_sample_def)
qed

lemma sample_bounds:
  assumes "\<forall>row\<in>set grp. well_formed_row row" "(c, w) \<in> set (samples grp)"
  shows "1 \<le> w \<and> w \<le> 3 \<and> 0 \<le> red c \<and> red c \<le> 255 \<and> 0 \<le> green c \<and> green c \<le> 255 \<and>
         0 \<le> blue c \<and> blue c \<le> 255"
proof -
  from assms(2) obtain row where row: "row \<in> set grp" "row_sample row = Some (c, w)"
    unfolding samples_def by (induction grp) (auto simp add: map_filter_simps split: option.splits)
  then obtain h p where hp: "colour row = Some h" "prominence row = Some p"
    "c = colour_channels h" "w = spec_weight p"
    by (auto simp add: row_sample_def split: option.splits)
  with assms(1) row(1) have wf: "well_formed_colour h" and p: "p \<in> {''low'', ''med'', ''high''}"
    by (auto simp add: well_formed_row_def)
  from well_formed_colour_channels(2-4)[OF wf] prominence_weights_spec[OF p] hp(3,4)
  show ?thesis by simp
qed

lemma of_int_sum_list: "of_int (sum_list xs) = sum_list (map of_int xs)"
  by (induction xs) simp_all

lemma numerator_samples:
  assumes "\<forall>row\<in>set grp. well_formed_row row"
  shows "numerator channel grp = of_int (sum_list (map (\<lambda>(c, w). channel c * w) (samples grp)))"
proof -
  have "of_int (sum_list (map (\<lambda>(c, w). channel c * w) (samples grp))) =
        (sum_list (map (\<lambda>(c, w). of_int (channel c * w)) (samples grp)) :: real)"
    by (simp add: of_int_sum_list comp_def case_prod_unfold)
  also have "\<dots> = sum_list (map (\<lambda>row. case row_sample row of None \<Rightarrow> 0
                                     | Some (c, w) \<Rightarrow> of_int (channel c * w)) grp)"
    unfolding samples_def sum_list_map_filter
    by (rule arg_cong[where f = sum_list], rule map_cong) (auto split: option.splits)
  also have "\<dots> = numerator channel grp"
    unfolding numerator_def
    by (rule arg_cong[where f = sum_list], rule map_cong)
       (auto simp add: contribution_sample assms split: option.splits)
  finally show ?thesis by simp
qed

lemma denominator_samples:
  assumes "\<forall>row\<in>set grp. well_formed_row row"
  shows "denominator grp = of_int (sum_list (map snd (samples grp)))"
proof -
  have "of_int (sum_list (map snd (samples grp))) =
        (sum_list (map (\<lambda>(c, w). of_int w) (samples grp)) :: real)"
    by (simp add: of_int_sum_list comp_def case_prod_unfold)
  also have "\<dots> = sum_list (map (\<lambda>row. case row_sample row of None \<Rightarrow> 0
                                     | Some (c, w) \<Rightarrow> of_int w) grp)"
    unfolding samples_def sum_list_map_filter
    by (rule arg_cong[where f = sum_list], rule map_cong) (auto split: option.splits)
  also have "\<dots> = denominator grp"
    unfolding denominator_def
    by (rule arg_cong[where f = sum_list], rule map_cong)
       (auto simp add: contribution_sample assms split: option.splits)
  finally show ?thesis by simp
qed

lemma py_trunc_quotient:
  assumes "0 \<le> S" "0 < W"
  shows "py_trunc (of_int S / of_int W) = S div W"
proof -
  have "(0::real) \<le> of_int S / of_int W" using assms by simp
  then show ?thesis by (simp add: py_trunc_def floor_divide_of_int_eq not_less)
qed

lemma samples_nonempty:
  assumes "\<exists>row\<in>set grp. contributes row"
  shows "samples grp \<noteq> []"
proof -
  from assms obtain row where row: "row \<in> set grp" "contributes row" by blast
  then obtain h p where "colour row = Some h" "prominence row = Some p"
    by (auto simp add: contributes_def)
  then have "row_sample row = Some (colour_channels h, spec_weight p)"
    by (simp add: row_sample_def)
  with row(1) have "(colour_channels h, spec_weight p) \<in> set (samples grp)"
    unfolding samples_def by (induction grp) (auto simp add: map_filter_simps split: option.splits)
  then show ?thesis by auto
qed

lemma samples_empty:
  assumes "\<forall>row\<in>set grp. \<not> contributes row"
  shows "samples grp = []"
  using assms unfolding samples_def
  by (induction grp)
     (auto simp add: map_filter_simps contributes_def row_sample_def split: option.splits)

lemma weight_sum_pos:
  assumes "xs \<noteq> []" "\<forall>(c, w)\<in>set xs. (1::int) \<le> w"
  shows "0 < sum_list (map snd xs)"
proof -
  from assms(1) obtain x xs' where xs: "xs = x # xs'" by (cases xs) auto
  with assms(2) have "1 \<le> snd x" "\<forall>v\<in>set (map snd xs'). 0 \<le> v" by auto
  then have "0 \<le> sum_list (map snd xs')" by (intro sum_list_nonneg) auto
  with \<open>1 \<le> snd x\<close> xs show ?thesis by simp
qed

lemma weighted_sum_bounds:
  fixes xs :: "(rgb \<times> int) list"
  assumes "\<forall>(c, w)\<in>set xs. 1 \<le> w \<and> lo \<le> channel c \<and> channel c \<le> hi"
  shows "lo * sum_list (map snd xs) \<le> sum_list (map (\<lambda>(c, w). channel c * w) xs) \<and>
         sum_list (map (\<lambda>(c, w). channel c * w) xs) \<le> hi * sum_list (map snd xs)"
  using assms
proof (induction xs)
  case Nil
  then show ?case by simp
next
  case (Cons x xs)
  obtain c w where x: "x = (c, w)" by (cases x)
  with Cons.prems have w: "1 \<le> w" "lo \<le> channel c" "channel c \<le> hi" by auto
  then have "lo * w \<le> channel c * w" "channel c * w \<le> hi * w"
    by (simp_all add: mult_right_mono)
  moreover from Cons have "lo * sum_list (map snd xs) \<le> sum_list (map (\<lambda>(c, w). channel c * w) xs) \<and>
         sum_list (map (\<lambda>(c, w). channel c * w) xs) \<le> hi * sum_list (map snd xs)"
    by simp
  ultimately show ?case using x by (simp add: algebra_simps)
qed

lemma weighted_mean_bounds:
  assumes "xs \<noteq> []" "\<forall>(c, w)\<in>set xs. 1 \<le> w \<and> lo \<le> channel c \<and> channel c \<le> hi"
  shows "lo \<le> weighted_mean channel xs \<and> weighted_mean channel xs \<le> hi"
proof -
  let ?W = "sum_list (map snd xs)" and ?S = "sum_list (map (\<lambda>(c, w). channel c * w) xs)"
  from assms have W: "0 < ?W" by (intro weight_sum_pos) auto
  from weighted_sum_bounds[OF assms(2)] have b: "lo * ?W \<le> ?S" "?S \<le> hi * ?W" by simp_all
  have "lo = (lo * ?W) div ?W" using W by simp
  also have "\<dots> \<le> ?S div ?W" using b(1) W by (intro zdiv_mono1) simp_all
  finally have 1: "lo \<le> ?S div ?W" .
  have "?S div ?W \<le> (hi * ?W) div ?W" using b(2) W by (intro zdiv_mono1) simp_all
  also have "\<dots> = hi" using W by simp
  finally have 2: "?S div ?W \<le> hi" .
  from 1 2 show ?thesis by (simp add: weighted_mean_def)
qed

lemma blend_samples:
  assumes "\<forall>row\<in>set grp. well_formed_row row" "\<exists>row\<in>set grp. contributes row"
  shows "blend_colors_with_prominence grp =
           Inr (Some (rgb_to_hex (weighted_mean red (samples grp),
                                  weighted_mean green (samples grp),
                                  weighted_mean blue (samples grp))))"
proof -
  let ?xs = "samples grp"
  have ne: "?xs \<noteq> []" using assms(2) by (rule samples_nonempty)
  have bnd: "\<forall>(c, w)\<in>set ?xs. 1 \<le> w \<and> 0 \<le> red c \<and> 0 \<le> green c \<and> 0 \<le> blue c"
    using sample_bounds[OF assms(1)] by auto
  then have W: "0 < sum_list (map snd ?xs)" using ne by (intro weight_sum_pos) auto
  have S: "0 \<le> sum_list (map (\<lambda>(c, w). channel c * w) ?xs)"
    if "\<forall>(c, w)\<in>set ?xs. 0 \<le> channel c" for channel
  proof (rule sum_list_nonneg)
    fix v assume "v \<in> set (map (\<lambda>(c, w). channel c * w) ?xs)"
    then obtain c w where cw: "(c, w) \<in> set ?xs" "v = channel c * w" by auto
    with that bnd have "0 \<le> channel c" "0 \<le> w" by fastforce+
    with cw show "0 \<le> v" by simp
  qed
  have tr: "py_trunc (numerator channel grp / denominator grp) = weighted_mean channel ?xs"
    if "\<forall>(c, w)\<in>set ?xs. 0 \<le> channel c" for channel
    unfolding numerator_samples[OF assms(1)] denominator_samples[OF assms(1)] weighted_mean_def
    by (rule py_trunc_quotient[OF S[OF that] W])
  have "\<forall>(c, w)\<in>set ?xs. 0 \<le> red c" "\<forall>(c, w)\<in>set ?xs. 0 \<le> green c"
    "\<forall>(c, w)\<in>set ?xs. 0 \<le> blue c"
    using bnd by auto
  then show ?thesis
    using assms(2) by (simp add: blend_well_formed[OF assms(1)] tr)
qed

lemma weighted_mean_byte:
  assumes "\<forall>row\<in>set grp. well_formed_row row" "\<exists>row\<in>set grp. contributes row"
    and "channel = red \<or> channel = green \<or> channel = blue"
  shows "0 \<le> weighted_mean channel (samples grp)" "weighted_mean channel (samples grp) \<le> 255"
    "Min (set (map (\<lambda>(c, w). channel c) (samples grp))) \<le> weighted_mean channel (samples grp)"
    "weighted_mean channel (samples grp) \<le> Max (set (map (\<lambda>(c, w). channel c) (samples grp)))"
proof -
  let ?xs = "samples grp"
  let ?vs = "set (map (\<lambda>(c, w). channel c) ?xs)"
  have ne: "?xs \<noteq> []" using assms(2) by (rule samples_nonempty)
  have b: "1 \<le> w \<and> 0 \<le> channel c \<and> channel c \<le> 255" if "(c, w) \<in> set ?xs" for c w
    using sample_bounds[OF assms(1) that] assms(3) by auto
  then have "\<forall>(c, w)\<in>set ?xs. 1 \<le> w \<and> 0 \<le> channel c \<and> channel c \<le> 255" by auto
  from weighted_mean_bounds[OF ne this]
  show "0 \<le> weighted_mean channel ?xs" "weighted_mean channel ?xs \<le> 255" by simp_all
  have fin: "finite ?vs" by simp
  have "\<forall>(c, w)\<in>set ?xs. 1 \<le> w \<and> Min ?vs \<le> channel c \<and> channel c \<le> Max ?vs"
  proof (clarify)
    fix c w assume cw: "(c, w) \<in> set ?xs"
    then have "channel c \<in> ?vs" by force
    with fin have "Min ?vs \<le> channel c" "channel c \<le> Max ?vs" by simp_all
    with b[OF cw] show "1 \<le> w \<and> Min ?vs \<le> channel c \<and> channel c \<le> Max ?vs" by simp
  qed
  from weighted_mean_bounds[OF ne this]
  show "Min ?vs \<le> weighted_mean channel ?xs" "weighted_mean channel ?xs \<le> Max ?vs" by simp_all
qed

text \<open>
  Claim C3. For a group whose rows are well formed and in which at least one row has both a
  colour and a prominence (in particular a non-empty group of rows with valid colours and
  prominences), the blend is a lowercase hexadecimal colour whose channels are, each on its
  own, the sum of value times weight over the sum of the weights, with the weights 1, 2 and 3
  for \<open>low\<close>, \<open>med\<close> and \<open>high\<close>, the quotient cut to its whole part (integer division
  of non-negative numbers, not rounding). Any reordering of the rows gives the same colour.
\<close>

theorem blend_is_truncated_weighted_mean:
  assumes "\<forall>row\<in>set grp. well_formed_row row" and "\<exists>row\<in>set grp. contributes row"
  shows "\<exists>out. blend_colors_with_prominence grp = Inr (Some out) \<and>
           lowercase_hex_colour out \<and>
           colour_channels out =
             (weighted_mean red (samples grp), weighted_mean green (samples grp),
              weighted_mean blue (samples grp)) \<and>
           (\<forall>grp'. mset grp' = mset grp \<longrightarrow>
              blend_colors_with_prominence grp' = Inr (Some out))"
proof -
  let ?r = "weighted_mean red (samples grp)" and ?g = "weighted_mean green (samples grp)"
    and ?b = "weighted_mean blue (samples grp)"
  let ?out = "rgb_to_hex (?r, ?g, ?b)"
  have res: "blend_colors_with_prominence grp = Inr (Some ?out)"
    using assms by (rule blend_samples)
  have bytes: "0 \<le> ?r" "?r \<le> 255" "0 \<le> ?g" "?g \<le> 255" "0 \<le> ?b" "?b \<le> 255"
    using weighted_mean_byte(1,2)[OF assms] by simp_all
  have low: "lowercase_hex_colour ?out" using bytes by (rule rgb_to_hex_bytes(1))
  have ch: "colour_channels ?out = (?r, ?g, ?b)" using bytes by (rule colour_channels_rgb_to_hex)
  have ord: "blend_colors_with_prominence grp' = Inr (Some ?out)" if "mset grp' = mset grp" for grp'
    using blend_mset[OF assms(1) that] res by simp
  from res low ch ord show ?thesis by (intro exI[of _ ?out]) simp
qed

text \<open>Red of high prominence and blue of low prominence blend to \<open>#bf003f\<close> in either
  order: \<open>(3 * 255 + 0) div 4 = 191\<close> on the red channel and \<open>(0 + 255) div 4 = 63\<close> on the
  blue one, where rounding would give 64.\<close>

theorem blend_is_truncated_weighted_mean_witness:
  "blend_colors_with_prominence [row_red_high, row_blue_low] = Inr (Some ''#bf003f'') \<and>
   blend_colors_with_prominence [row_blue_low, row_red_high] = Inr (Some ''#bf003f'') \<and>
   colour_channels ''#bf003f'' = (191, 0, 63) \<and>
   weighted_mean red (samples [row_red_high, row_blue_low]) = (3 * 255 + 1 * 0) div 4 \<and>
   weighted_mean blue (samples [row_red_high, row_blue_low]) = (3 * 0 + 1 * 255) div 4"
proof -
  let ?grp = "[row_red_high, row_blue_low]"
  have wf: "\<forall>row\<in>set ?grp. well_formed_row row" by code_simp
  have co: "\<exists>row\<in>set ?grp. contributes row" by code_simp
  from blend_is_truncated_weighted_mean[OF wf co] obtain out where
    out: "blend_colors_with_prominence ?grp = Inr (Some out)"
    and ch: "colour_channels out =
             (weighted_mean red (samples ?grp), weighted_mean green (samples ?grp),
              weighted_mean blue (samples ?grp))"
    and ord: "\<forall>grp'. mset grp' = mset ?grp \<longrightarrow> blend_colors_with_prominence grp' = Inr (Some out)"
    by blast
  have val: "blend_colors_with_prominence ?grp = Inr (Some ''#bf003f'')" by code_simp
  with out have o: "out = ''#bf003f''" by simp
  have "mset [row_blue_low, row_red_high] = mset ?grp" by (simp add: add.commute)
  with ord o have rev: "blend_colors_with_prominence [row_blue_low, row_red_high] =
      Inr (Some ''#bf003f'')" by blast
  have c: "colour_channels ''#bf003f'' = (191, 0, 63)" by code_simp
  from ch o c have "weighted_mean red (samples ?grp) = 191" "weighted_mean blue (samples ?grp) = 63"
    by simp_all
  with val rev c show ?thesis by simp
qed

lemma blend_byte_colour:
  assumes "\<forall>row\<in>set grp. well_formed_row row"
  shows "\<exists>res. blend_colors_with_prominence grp = Inr res \<and>
           (\<forall>out. res = Some out \<longrightarrow>
              lowercase_hex_colour out \<and> channel_within red grp out \<and>
              channel_within green grp out \<and> channel_within blue grp out)"
proof (cases "\<exists>row\<in>set grp. contributes row")
  case False
  then have "blend_colors_with_prominence grp = Inr None"
    by (simp add: blend_well_formed[OF assms])
  then show ?thesis by simp
next
  case True
  let ?r = "weighted_mean red (samples grp)" and ?g = "weighted_mean green (samples grp)"
    and ?b = "weighted_mean blue (samples grp)"
  let ?out = "rgb_to_hex (?r, ?g, ?b)"
  have res: "blend_colors_with_prominence grp = Inr (Some ?out)"
    using assms True by (rule blend_samples)
  note r = weighted_mean_byte[OF assms True, of red, simplified]
  note g = weighted_mean_byte[OF assms True, of green, simplified]
  note b = weighted_mean_byte[OF assms True, of blue, simplified]
  have low: "lowercase_hex_colour ?out" using r(1,2) g(1,2) b(1,2) by (intro rgb_to_hex_bytes(1))
  have ch: "colour_channels ?out = (?r, ?g, ?b)"
    using r(1,2) g(1,2) b(1,2) by (intro colour_channels_rgb_to_hex)
  have "channel_within red grp ?out" "channel_within green grp ?out" "channel_within blue grp ?out"
    unfolding channel_within_def ch Let_def using r g b
    by (simp_all add: red_def green_def blue_def)
  with res low show ?thesis by simp
qed

section \<open>Properties of the month loop\<close>

lemma set_unique: "set (unique xs) = set xs"
  by (induction xs) auto

lemma distinct_unique: "distinct (unique xs)"
  by (induction xs) (auto simp add: set_unique)

lemma blend_well_formed_cases:
  assumes "\<forall>row\<in>set grp. well_formed_row row"
  shows "(\<forall>row\<in>set grp. \<not> contributes row) \<and> blend_colors_with_prominence grp = Inr None \<or>
         (\<exists>row\<in>set grp. contributes row) \<and>
         (\<exists>out. blend_colors_with_prominence grp = Inr (Some out) \<and> out \<noteq> [])"
proof (cases "\<exists>row\<in>set grp. contributes row")
  case False
  then show ?thesis by (simp add: blend_well_formed[OF assms])
next
  case True
  have "rgb_to_hex c \<noteq> []" for c by (simp add: rgb_to_hex_def)
  with True blend_samples[OF assms True] show ?thesis by auto
qed

lemma blend_groups_well_formed:
  assumes "\<forall>(k, grp)\<in>set groups. \<forall>row\<in>set grp. well_formed_row row"
  shows "blend_groups groups =
           Inr (map aggregate_of (filter (\<lambda>(k, grp). \<exists>row\<in>set grp. contributes row) groups))"
  using assms
proof (induction groups)
  case Nil
  then show ?case by simp
next
  case (Cons kg groups)
  obtain k grp where kg: "kg = (k, grp)" by (cases kg)
  from Cons.prems kg have wf: "\<forall>row\<in>set grp. well_formed_row row" by simp
  from Cons have IH: "blend_groups groups =
      Inr (map aggregate_of (filter (\<lambda>(k, grp). \<exists>row\<in>set grp. contributes row) groups))"
    by simp
  from blend_well_formed_cases[OF wf] show ?case
  proof
    assume "(\<forall>row\<in>set grp. \<not> contributes row) \<and> blend_colors_with_prominence grp = Inr None"
    with IH kg show ?thesis by simp
  next
    assume a: "(\<exists>row\<in>set grp. contributes row) \<and>
         (\<exists>out. blend_colors_with_prominence grp = Inr (Some out) \<and> out \<noteq> [])"
    then obtain out where out: "blend_colors_with_prominence grp = Inr (Some out)" "out \<noteq> []"
      by blast
    from a have c: "\<exists>row\<in>set grp. contributes row" by blast
    have "aggregate_of (k, grp) =
            \<lparr>cell_h3_index = k, cell_colour_hex = out, tree_species = unique (map TreeName grp)\<rparr>"
      by (simp add: aggregate_of_def out)
    with IH kg out c show ?thesis by simp
  qed
qed

lemma groupby_keys:
  "map fst (groupby_h3_index df) = sort (remdups (map h3_index df))"
  by (simp add: groupby_h3_index_def comp_def)

lemma groupby_group:
  "(k, grp) \<in> set (groupby_h3_index df) \<Longrightarrow>
     grp = filter (\<lambda>row. h3_index row = k) df \<and> k \<in> h3_index ` set df"
  by (auto simp add: groupby_h3_index_def)

lemma groupby_empty: "groupby_h3_index df = [] \<longleftrightarrow> df = []"
proof -
  have "groupby_h3_index df = [] \<longleftrightarrow> set (sort (remdups (map h3_index df))) = {}"
    unfolding groupby_h3_index_def by (simp del: set_sort set_remdups)
  then show ?thesis by simp
qed

lemma process_month_well_formed:
  assumes "\<forall>row\<in>set df. well_formed_row row"
  shows "process_month df month =
     (let cells = map aggregate_of
                    (filter (\<lambda>(k, grp). \<exists>row\<in>set grp. contributes row)
                       (groupby_h3_index (filter (flowering_in month) df)))
      in Inr (if cells = [] then None else Some cells))"
proof -
  let ?fl = "filter (flowering_in month) df"
  have fl: "filter (\<lambda>row. month_flags row month = Some True) df = ?fl"
    by (simp add: flowering_in_def[abs_def])
  have wf: "\<forall>(k, grp)\<in>set (groupby_h3_index ?fl). \<forall>row\<in>set grp. well_formed_row row"
    using assms by (auto dest!: groupby_group)
  show ?thesis
  proof (cases "?fl = []")
    case True
    then show ?thesis by (simp add: process_month_def fl groupby_h3_index_def)
  next
    case False
    then have "groupby_h3_index ?fl \<noteq> []" by (simp add: groupby_empty)
    with False show ?thesis
      by (simp add: process_month_def fl Let_def blend_groups_well_formed[OF wf])
  qed
qed

lemma cells_of_month:
  fixes df :: "tree_row list" and month :: string
  assumes "\<forall>row\<in>set df. well_formed_row row"
  defines "cells \<equiv> map aggregate_of
                    (filter (\<lambda>(k, grp). \<exists>row\<in>set grp. contributes row)
                       (groupby_h3_index (filter (flowering_in month) df)))"
  shows "distinct (map cell_h3_index cells)"
    and "set (map cell_h3_index cells) = {h3_index row |row. row \<in> set df \<and> qualifies month row}"
    and "agg \<in> set cells \<Longrightarrow>
           tree_species agg = unique (map TreeName (cell_rows df month (cell_h3_index agg))) \<and>
           blend_colors_with_prominence (cell_rows df month (cell_h3_index agg)) =
             Inr (Some (cell_colour_hex agg))"
proof -
  let ?fl = "filter (flowering_in month) df"
  let ?gs = "filter (\<lambda>(k, grp). \<exists>row\<in>set grp. contributes row) (groupby_h3_index ?fl)"
  have ids: "map cell_h3_index cells = map fst ?gs"
    by (simp add: cells_def aggregate_of_def comp_def)
  have "distinct (map fst (groupby_h3_index ?fl))" by (simp add: groupby_keys)
  then have "distinct (map fst ?gs)" by (rule distinct_map_filter)
  with ids show "distinct (map cell_h3_index cells)" by simp
  have grp: "grp = cell_rows df month k" if "(k, grp) \<in> set (groupby_h3_index ?fl)" for k grp
    using groupby_group[OF that] by (simp add: cell_rows_def conj_commute)
  show "set (map cell_h3_index cells) = {h3_index row |row. row \<in> set df \<and> qualifies month row}"
  proof (intro set_eqI iffI)
    fix k assume "k \<in> set (map cell_h3_index cells)"
    then obtain grp where g: "(k, grp) \<in> set (groupby_h3_index ?fl)"
      and c: "\<exists>row\<in>set grp. contributes row"
      unfolding ids by fastforce
    from c grp[OF g] obtain row where "row \<in> set df" "flowering_in month row" "h3_index row = k"
      "contributes row" by (auto simp add: cell_rows_def)
    then show "k \<in> {h3_index row |row. row \<in> set df \<and> qualifies month row}"
      by (auto simp add: qualifies_def contributes_def)
  next
    fix k assume "k \<in> {h3_index row |row. row \<in> set df \<and> qualifies month row}"
    then obtain row where row: "row \<in> set df" "qualifies month row" "k = h3_index row" by blast
    then have in_fl: "row \<in> set ?fl" by (simp add: qualifies_def)
    then have "k \<in> set (map fst (groupby_h3_index ?fl))"
      using row(3) by (simp add: groupby_keys)
    then obtain grp where g: "(k, grp) \<in> set (groupby_h3_index ?fl)" by auto
    from groupby_group[OF g] in_fl row(3) have "row \<in> set grp" by simp
    moreover from row(2) have "contributes row" by (simp add: qualifies_def contributes_def)
    ultimately have "(k, grp) \<in> set ?gs" using g by auto
    then have "k \<in> fst ` set ?gs" by force
    then show "k \<in> set (map cell_h3_index cells)" unfolding ids by simp
  qed
  assume "agg \<in> set cells"
  then obtain k grp where g: "(k, grp) \<in> set (groupby_h3_index ?fl)"
    and c: "\<exists>row\<in>set grp. contributes row" and agg: "agg = aggregate_of (k, grp)"
    unfolding cells_def by fastforce
  have wf: "\<forall>row\<in>set grp. well_formed_row row"
    using assms(1) groupby_group[OF g] by auto
  from blend_well_formed_cases[OF wf] c obtain out where
    "blend_colors_with_prominence grp = Inr (Some out)" by blast
  with agg grp[OF g]
  show "tree_species agg = unique (map TreeName (cell_rows df month (cell_h3_index agg))) \<and>
        blend_colors_with_prominence (cell_rows df month (cell_h3_index agg)) =
          Inr (Some (cell_colour_hex agg))"
    by (simp add: aggregate_of_def)
qed

lemma blend_groups_species:
  "blend_groups groups = Inr cells \<Longrightarrow> agg \<in> set cells \<Longrightarrow>
     \<exists>grp. (cell_h3_index agg, grp) \<in> set groups \<and> tree_species agg = unique (map TreeName grp)"
proof (induction groups arbitrary: cells)
  case Nil
  then show ?case by simp
next
  case (Cons kg groups)
  obtain k grp where kg: "kg = (k, grp)" by (cases kg)
  from Cons.prems(1) kg obtain rest where rest: "blend_groups groups = Inr rest"
    by (auto split: sum.splits)
  from Cons.prems(1) kg rest have
    "cells = rest \<or>
     cells = \<lparr>cell_h3_index = k, cell_colour_hex = cell_colour_hex (hd cells),
              tree_species = unique (map TreeName grp)\<rparr> # rest"
    by (auto split: sum.splits option.splits if_splits)
  then show ?case
  proof
    assume "cells = rest"
    with Cons.IH[OF rest] Cons.prems(2) show ?thesis by auto
  next
    assume c: "cells = \<lparr>cell_h3_index = k, cell_colour_hex = cell_colour_hex (hd cells),
              tree_species = unique (map TreeName grp)\<rparr> # rest"
    show ?thesis
    proof (cases "agg \<in> set rest")
      case True
      with Cons.IH[OF rest] show ?thesis by auto
    next
      case False
      with c Cons.prems(2) have
        "agg = \<lparr>cell_h3_index = k, cell_colour_hex = cell_colour_hex (hd cells),
              tree_species = unique (map TreeName grp)\<rparr>"
        by (metis set_ConsD)
      then have "cell_h3_index agg = k" "tree_species agg = unique (map TreeName grp)"
        by simp_all
      with kg show ?thesis by auto
    qed
  qed
qed

lemma process_month_species:
  assumes "process_month df month = Inr (Some cells)" "agg \<in> set cells"
  shows "tree_species agg = unique (map TreeName (cell_rows df month (cell_h3_index agg)))"
proof -
  let ?fl = "filter (flowering_in month) df"
  have fl: "filter (\<lambda>row. month_flags row month = Some True) df = ?fl"
    by (simp add: flowering_in_def[abs_def])
  from assms(1) have "blend_groups (groupby_h3_index ?fl) = Inr cells"
    by (auto simp add: process_month_def fl Let_def split: if_splits sum.splits)
  from blend_groups_species[OF this assms(2)] obtain grp where
    g: "(cell_h3_index agg, grp) \<in> set (groupby_h3_index ?fl)"
    and sp: "tree_species agg = unique (map TreeName grp)" by blast
  from groupby_group[OF g] have "grp = cell_rows df month (cell_h3_index agg)"
    by (simp add: cell_rows_def conj_commute)
  with sp show ?thesis by simp
qed

lemma set_compr_list: "{f r |r. r \<in> set xs \<and> P r} = set (map f (filter P xs))"
  by auto

lemma set_cell_rows_names:
  "set (unique (map TreeName (cell_rows df month cell))) =
     {TreeName r |r. r \<in> set df \<and> flowering_in month r \<and> h3_index r = cell}"
  by (auto simp add: set_unique cell_rows_def)

text \<open>
  Claim C2, as the code has it. The species list of an emitted aggregate is taken from all
  the rows of its cell that flower in the month (\<open>group["TreeName"].unique()\<close>), whether or
  not they entered the blend: it has no duplicates, and its names are exactly the names of
  those rows. When the rows are well formed, every row that flowers in the month and has both
  a colour and a prominence has exactly one aggregate for its cell, and its species name is
  in the list of that aggregate (once, the list having no duplicates).
\<close>

theorem species_list_of_cell:
  "(\<forall>cells agg. process_month df month = Inr (Some cells) \<and> agg \<in> set cells \<longrightarrow>
      distinct (tree_species agg) \<and>
      set (tree_species agg) =
        {TreeName r |r. r \<in> set df \<and> flowering_in month r \<and> h3_index r = cell_h3_index agg}) \<and>
   ((\<forall>r\<in>set df. well_formed_row r) \<and> row \<in> set df \<and> qualifies month row \<longrightarrow>
      (\<exists>cells agg. process_month df month = Inr (Some cells) \<and> agg \<in> set cells \<and>
         cell_h3_index agg = h3_index row \<and>
         (\<forall>agg'\<in>set cells. cell_h3_index agg' = h3_index row \<longrightarrow> agg' = agg) \<and>
         TreeName row \<in> set (tree_species agg)))"
proof -
  have A: "distinct (tree_species agg) \<and>
      set (tree_species agg) =
        {TreeName r |r. r \<in> set df \<and> flowering_in month r \<and> h3_index r = cell_h3_index agg}"
    if "process_month df month = Inr (Some cells)" "agg \<in> set cells" for cells agg
    unfolding process_month_species[OF that] by (simp only: distinct_unique set_cell_rows_names)
  have B: "\<exists>cells agg. process_month df month = Inr (Some cells) \<and> agg \<in> set cells \<and>
         cell_h3_index agg = h3_index row \<and>
         (\<forall>agg'\<in>set cells. cell_h3_index agg' = h3_index row \<longrightarrow> agg' = agg) \<and>
         TreeName row \<in> set (tree_species agg)"
    if wf: "\<forall>r\<in>set df. well_formed_row r" and row: "row \<in> set df" "qualifies month row"
  proof -
    define cells where "cells = map aggregate_of
                    (filter (\<lambda>(k, grp). \<exists>row\<in>set grp. contributes row)
                       (groupby_h3_index (filter (flowering_in month) df)))"
    note cm = cells_of_month[OF wf, where month = month, folded cells_def]
    from row have "h3_index row \<in> set (map cell_h3_index cells)" unfolding cm(2) by blast
    then have "h3_index row \<in> cell_h3_index ` set cells" by (simp only: set_map)
    then obtain agg where agg0: "h3_index row = cell_h3_index agg" "agg \<in> set cells"
      by (rule imageE)
    then have agg: "agg \<in> set cells" "cell_h3_index agg = h3_index row" by simp_all
    then have ne: "cells \<noteq> []" by auto
    have pm: "process_month df month = Inr (Some cells)"
      using ne unfolding process_month_well_formed[OF wf] cells_def[symmetric] by (simp add: Let_def)
    have uniq: "agg' = agg" if "agg' \<in> set cells" "cell_h3_index agg' = h3_index row" for agg'
      using cm(1) that agg by (simp add: distinct_map inj_on_def)
    from row have "TreeName row \<in> {TreeName r |r. r \<in> set df \<and> flowering_in month r \<and>
        h3_index r = cell_h3_index agg}"
      using agg(2) by (auto simp add: qualifies_def)
    with A[OF pm agg(1)] have "TreeName row \<in> set (tree_species agg)" by simp
    with pm agg uniq show ?thesis by blast
  qed
  from A B show ?thesis by blast
qed

text \<open>Two rows of the same species, a row without prominence and a row of another cell:
  the aggregate of the first cell lists two names, each once.\<close>

theorem species_list_of_cell_witness:
  "\<exists>cells agg.
     process_month [row_gulmohar, row_gulmohar, row_tabebuia, row_jacaranda] ''Jan'' =
       Inr (Some cells) \<and>
     agg \<in> set cells \<and> cell_h3_index agg = ''8b6189256d9bfff'' \<and>
     distinct (tree_species agg) \<and>
     set (tree_species agg) = {''Delonix regia'', ''Tabebuia rosea''}"
proof -
  let ?df = "[row_gulmohar, row_gulmohar, row_tabebuia, row_jacaranda]"
  have wf: "\<forall>r\<in>set ?df. well_formed_row r" by code_simp
  have q: "qualifies ''Jan'' row_gulmohar" by code_simp
  have fl: "flowering_in ''Jan'' row_gulmohar" "flowering_in ''Jan'' row_tabebuia"
    "flowering_in ''Jan'' row_jacaranda"
    by code_simp+
  have ids: "h3_index row_gulmohar = ''8b6189256d9bfff''" "h3_index row_tabebuia = ''8b6189256d9bfff''"
    "h3_index row_jacaranda = ''8b6189256d9afff''"
    "TreeName row_gulmohar = ''Delonix regia''" "TreeName row_tabebuia = ''Tabebuia rosea''"
    by (simp_all add: row_gulmohar_def row_tabebuia_def row_jacaranda_def)
  note main = species_list_of_cell[of "?df" "''Jan''" row_gulmohar]
  from main wf q obtain cells agg where
    pm: "process_month ?df ''Jan'' = Inr (Some cells)" and agg: "agg \<in> set cells"
    and cell: "cell_h3_index agg = h3_index row_gulmohar"
    by auto
  from main pm agg have sp: "distinct (tree_species agg)"
    "set (tree_species agg) =
       {TreeName r |r. r \<in> set ?df \<and> flowering_in ''Jan'' r \<and> h3_index r = cell_h3_index agg}"
    by blast+
  have "{TreeName r |r. r \<in> set ?df \<and> flowering_in ''Jan'' r \<and> h3_index r = cell_h3_index agg} =
        {''Delonix regia'', ''Tabebuia rosea''}"
    unfolding cell set_compr_list using fl ids by simp
  with sp pm agg cell ids(1) show ?thesis by auto
qed

text \<open>
  The claim fails where it says that a species all of whose rows were excluded from the blend
  is not listed: the only row of \<open>Tabebuia rosea\<close> has no prominence and adds nothing to
  the colour, which is that of the other row alone, yet the species is in the list.
\<close>

theorem species_of_excluded_record_counterexample:
  "process_month [row_gulmohar, row_tabebuia] ''Jan'' =
     Inr (Some [\<lparr>cell_h3_index = ''8b6189256d9bfff'', cell_colour_hex = ''#ff0000'',
                 tree_species = [''Delonix regia'', ''Tabebuia rosea'']\<rparr>]) \<and>
   TreeName row_tabebuia = ''Tabebuia rosea'' \<and> prominence row_tabebuia = None \<and>
   blend_colors_with_prominence [row_gulmohar, row_tabebuia] =
     blend_colors_with_prominence [row_gulmohar]"
  by code_simp

lemma process_month_total:
  assumes "\<forall>row\<in>set df. well_formed_row row"
  shows "\<exists>res. process_month df month = Inr res \<and>
         (res = None \<longleftrightarrow> (\<forall>row\<in>set df. \<not> qualifies month row)) \<and>
         (\<forall>cells. res = Some cells \<longrightarrow>
            distinct (map cell_h3_index cells) \<and>
            set (map cell_h3_index cells) =
              {h3_index row |row. row \<in> set df \<and> qualifies month row} \<and>
            (\<forall>agg\<in>set cells.
               blend_colors_with_prominence (cell_rows df month (cell_h3_index agg)) =
                 Inr (Some (cell_colour_hex agg))))"
proof -
  define cells where "cells = map aggregate_of
                    (filter (\<lambda>(k, grp). \<exists>row\<in>set grp. contributes row)
                       (groupby_h3_index (filter (flowering_in month) df)))"
  note cm = cells_of_month[OF assms, where month = month, folded cells_def]
  have pm: "process_month df month = Inr (if cells = [] then None else Some cells)"
    unfolding process_month_well_formed[OF assms] cells_def[symmetric] by (simp add: Let_def)
  have "cells = [] \<longleftrightarrow> set (map cell_h3_index cells) = {}" by simp
  also have "\<dots> \<longleftrightarrow> (\<forall>row\<in>set df. \<not> qualifies month row)" unfolding cm(2) by blast
  finally have e: "cells = [] \<longleftrightarrow> (\<forall>row\<in>set df. \<not> qualifies month row)" .
  show ?thesis
  proof (cases "cells = []")
    case True
    with pm e show ?thesis by simp
  next
    case False
    with pm e cm(1,2) cm(3) show ?thesis by auto
  qed
qed

lemma process_month_nothing_flowering:
  "\<forall>row\<in>set df. \<not> flowering_in month row \<Longrightarrow> process_month df month = Inr None"
proof -
  assume "\<forall>row\<in>set df. \<not> flowering_in month row"
  then have "filter (\<lambda>row. month_flags row month = Some True) df = []"
    by (auto simp add: flowering_in_def filter_empty_conv)
  then show ?thesis by (simp add: process_month_def)
qed

lemma month_loop_total:
  assumes "\<forall>row\<in>set df. well_formed_row row"
  shows "\<exists>written. month_loop df months = Inr written \<and>
         map fst written = filter (\<lambda>m. \<exists>row\<in>set df. qualifies m row) months \<and>
         (\<forall>(m, cells)\<in>set written. process_month df m = Inr (Some cells))"
proof (induction months)
  case Nil
  then show ?case by simp
next
  case (Cons month months)
  then obtain written where w: "month_loop df months = Inr written"
    "map fst written = filter (\<lambda>m. \<exists>row\<in>set df. qualifies m row) months"
    "\<forall>(m, cells)\<in>set written. process_month df m = Inr (Some cells)"
    by blast
  from process_month_total[OF assms, of month] obtain res where
    res: "process_month df month = Inr res"
    "res = None \<longleftrightarrow> (\<forall>row\<in>set df. \<not> qualifies month row)"
    by blast
  show ?case
  proof (cases res)
    case None
    with res w show ?thesis by simp
  next
    case (Some cells)
    with res have "\<exists>row\<in>set df. qualifies month row" by auto
    with Some res w show ?thesis by simp
  qed
qed

text \<open>
  Claim C7. A month in which no row flowers gives no table and no error. When the rows are
  well formed, the month never raises; it gives no table exactly when no row flowers in it
  with both a colour and a prominence; otherwise the table has exactly one aggregate for each
  cell that holds such a row and none for the other cells, and the colour of an aggregate is
  the blend of the rows of its cell that flower in the month. The loop over the months goes
  on after a month without table: the months written are exactly those with such a row.
\<close>

theorem one_aggregate_per_qualifying_cell:
  "((\<forall>row\<in>set df. \<not> flowering_in month row) \<longrightarrow> process_month df month = Inr None) \<and>
   ((\<forall>row\<in>set df. well_formed_row row) \<longrightarrow>
      (\<exists>res. process_month df month = Inr res \<and>
         (res = None \<longleftrightarrow> (\<forall>row\<in>set df. \<not> qualifies month row)) \<and>
         (\<forall>cells. res = Some cells \<longrightarrow>
            distinct (map cell_h3_index cells) \<and>
            set (map cell_h3_index cells) =
              {h3_index row |row. row \<in> set df \<and> qualifies month row} \<and>
            (\<forall>agg\<in>set cells.
               blend_colors_with_prominence (cell_rows df month (cell_h3_index agg)) =
                 Inr (Some (cell_colour_hex agg))))) \<and>
      (\<exists>written. month_loop df months = Inr written \<and>
         map fst written = filter (\<lambda>m. \<exists>row\<in>set df. qualifies m row) months \<and>
         (\<forall>(m, cells)\<in>set written. process_month df m = Inr (Some cells))))"
  using process_month_nothing_flowering[of df month] process_month_total[of df month]
    month_loop_total[of df months]
  by blast

text \<open>Nothing flowers in February; January has an aggregate for each of two cells (the
  row without prominence adds none); the loop over January, February and March writes
  January and March.\<close>

theorem one_aggregate_per_qualifying_cell_witness:
  "process_month [row_gulmohar, row_tabebuia, row_jacaranda, row_cassia] ''Feb'' = Inr None \<and>
   (\<exists>cells. process_month [row_gulmohar, row_tabebuia, row_jacaranda, row_cassia] ''Jan'' =
        Inr (Some cells) \<and>
      set (map cell_h3_index cells) = {''8b6189256d9afff'', ''8b6189256d9bfff''} \<and>
      distinct (map cell_h3_index cells)) \<and>
   (\<exists>written. month_loop [row_gulmohar, row_tabebuia, row_jacaranda, row_cassia]
        [''Jan'', ''Feb'', ''Mar''] = Inr written \<and>
      map fst written = [''Jan'', ''Mar''])"
proof -
  let ?df = "[row_gulmohar, row_tabebuia, row_jacaranda, row_cassia]"
  have wf: "\<forall>r\<in>set ?df. well_formed_row r" by code_simp
  have feb: "\<forall>row\<in>set ?df. \<not> flowering_in ''Feb'' row" by code_simp
  have q: "qualifies ''Jan'' row_gulmohar" "\<not> qualifies ''Jan'' row_tabebuia"
    "qualifies ''Jan'' row_jacaranda" "\<not> qualifies ''Jan'' row_cassia"
    "\<not> qualifies ''Feb'' row_gulmohar" "\<not> qualifies ''Feb'' row_tabebuia"
    "\<not> qualifies ''Feb'' row_jacaranda" "\<not> qualifies ''Feb'' row_cassia"
    "\<not> qualifies ''Mar'' row_gulmohar" "\<not> qualifies ''Mar'' row_tabebuia"
    "\<not> qualifies ''Mar'' row_jacaranda" "qualifies ''Mar'' row_cassia"
    by code_simp+
  have ids: "h3_index row_gulmohar = ''8b6189256d9bfff''"
    "h3_index row_jacaranda = ''8b6189256d9afff''"
    by (simp_all add: row_gulmohar_def row_jacaranda_def)
  note main = one_aggregate_per_qualifying_cell[of "?df" _ "[''Jan'', ''Feb'', ''Mar'']"]
  have 1: "process_month ?df ''Feb'' = Inr None"
    using main[of "''Feb''"] feb by blast
  from main[of "''Jan''"] wf obtain res where
    res: "process_month ?df ''Jan'' = Inr res"
    "res = None \<longleftrightarrow> (\<forall>row\<in>set ?df. \<not> qualifies ''Jan'' row)"
    "\<forall>cells. res = Some cells \<longrightarrow>
            distinct (map cell_h3_index cells) \<and>
            set (map cell_h3_index cells) =
              {h3_index row |row. row \<in> set ?df \<and> qualifies ''Jan'' row} \<and>
            (\<forall>agg\<in>set cells.
               blend_colors_with_prominence (cell_rows ?df ''Jan'' (cell_h3_index agg)) =
                 Inr (Some (cell_colour_hex agg)))"
    by blast
  from res(2) q(1) obtain cells where cells: "res = Some cells" by (cases res) auto
  have "{h3_index row |row. row \<in> set ?df \<and> qualifies ''Jan'' row} =
        {''8b6189256d9afff'', ''8b6189256d9bfff''}"
    unfolding set_compr_list using q ids by auto
  with res(3) cells have "distinct (map cell_h3_index cells)"
    "set (map cell_h3_index cells) = {''8b6189256d9afff'', ''8b6189256d9bfff''}"
    by simp_all
  with res(1) cells have 2: "\<exists>cells. process_month ?df ''Jan'' = Inr (Some cells) \<and>
      set (map cell_h3_index cells) = {''8b6189256d9afff'', ''8b6189256d9bfff''} \<and>
      distinct (map cell_h3_index cells)"
    by (intro exI[of _ cells]) simp
  from main[of "''Jan''"] wf obtain written where
    w: "month_loop ?df [''Jan'', ''Feb'', ''Mar''] = Inr written"
    "map fst written =
       filter (\<lambda>m. \<exists>row\<in>set ?df. qualifies m row) [''Jan'', ''Feb'', ''Mar'']"
    by blast
  have "filter (\<lambda>m. \<exists>row\<in>set ?df. qualifies m row) [''Jan'', ''Feb'', ''Mar''] =
        [''Jan'', ''Mar'']"
    using q by simp
  with w have 3: "\<exists>written. month_loop ?df [''Jan'', ''Feb'', ''Mar''] = Inr written \<and>
      map fst written = [''Jan'', ''Mar'']"
    by (intro exI[of _ written]) simp
  from 1 2 3 show ?thesis by blast
qed

text \<open>
  Claim C10. On a group of well-formed rows \<open>blend_colors_with_prominence\<close> does not raise,
  and a result other than \<open>None\<close> is \<open>#\<close> followed by six lowercase hexadecimal digits,
  each of whose channels lies in 0..255 and between the least and the greatest value of that
  channel among the rows that have both a colour and a prominence. So, in a table of
  well-formed rows, the colour of every emitted aggregate is such a colour for the rows of
  its cell that flower in the month.
\<close>

theorem blend_output_well_formed:
  "((\<forall>row\<in>set grp. well_formed_row row) \<longrightarrow>
      (\<exists>res. blend_colors_with_prominence grp = Inr res \<and>
         (\<forall>out. res = Some out \<longrightarrow> representable_colour grp out))) \<and>
   ((\<forall>row\<in>set df. well_formed_row row) \<and> process_month df month = Inr (Some cells) \<and>
    agg \<in> set cells \<longrightarrow>
      representable_colour (cell_rows df month (cell_h3_index agg)) (cell_colour_hex agg))"
proof -
  have A: "\<exists>res. blend_colors_with_prominence grp = Inr res \<and>
         (\<forall>out. res = Some out \<longrightarrow> representable_colour grp out)"
    if "\<forall>row\<in>set grp. well_formed_row row" for grp
    using blend_byte_colour[OF that] by (simp add: representable_colour_def)
  have B: "representable_colour (cell_rows df month (cell_h3_index agg)) (cell_colour_hex agg)"
    if wf: "\<forall>row\<in>set df. well_formed_row row"
      and pm: "process_month df month = Inr (Some cells)" and agg: "agg \<in> set cells"
  proof -
    from process_month_total[OF wf, of month] pm agg
    have bl: "blend_colors_with_prominence (cell_rows df month (cell_h3_index agg)) =
                Inr (Some (cell_colour_hex agg))"
      by auto
    have "\<forall>row\<in>set (cell_rows df month (cell_h3_index agg)). well_formed_row row"
      using wf by (simp add: cell_rows_def)
    from A[OF this] bl show ?thesis by simp
  qed
  from A[of grp] B show ?thesis by blast
qed

text \<open>Red, a row without colour and blue: the result \<open>#bf003f\<close> has its channels 191, 0
  and 63 within 0..255, 0..0 and 0..255; the aggregate of a cell with one red row that counts
  carries \<open>#ff0000\<close>.\<close>

theorem blend_output_well_formed_witness:
  "blend_colors_with_prominence [row_red_high, row_missing_colour, row_blue_low] =
     Inr (Some ''#bf003f'') \<and>
   representable_colour [row_red_high, row_missing_colour, row_blue_low] ''#bf003f'' \<and>
   blend_colors_with_prominence [row_missing_colour] = Inr None \<and>
   process_month [row_gulmohar, row_tabebuia] ''Jan'' =
     Inr (Some [\<lparr>cell_h3_index = ''8b6189256d9bfff'', cell_colour_hex = ''#ff0000'',
                 tree_species = [''Delonix regia'', ''Tabebuia rosea'']\<rparr>]) \<and>
   representable_colour (cell_rows [row_gulmohar, row_tabebuia] ''Jan'' ''8b6189256d9bfff'')
     ''#ff0000''"
proof -
  let ?grp = "[row_red_high, row_missing_colour, row_blue_low]"
  let ?df = "[row_gulmohar, row_tabebuia]"
  let ?agg = "\<lparr>cell_h3_index = ''8b6189256d9bfff'', cell_colour_hex = ''#ff0000'',
                 tree_species = [''Delonix regia'', ''Tabebuia rosea'']\<rparr>"
  have wf: "\<forall>row\<in>set ?grp. well_formed_row row" by code_simp
  have wf': "\<forall>row\<in>set [row_missing_colour]. well_formed_row row" by code_simp
  have wfd: "\<forall>row\<in>set ?df. well_formed_row row" by code_simp
  have val: "blend_colors_with_prominence ?grp = Inr (Some ''#bf003f'')"
    "blend_colors_with_prominence [row_missing_colour] = Inr None"
    by code_simp+
  have pm: "process_month ?df ''Jan'' = Inr (Some [?agg])" by code_simp
  from blend_output_well_formed[of ?grp ?df "''Jan''" "[?agg]" ?agg] wf val(1)
  have 1: "representable_colour ?grp ''#bf003f''" by simp
  from blend_output_well_formed[of ?grp ?df "''Jan''" "[?agg]" ?agg] wfd pm
  have 2: "representable_colour (cell_rows ?df ''Jan'' ''8b6189256d9bfff'') ''#ff0000''"
    by simp
  from 1 2 val pm show ?thesis by simp
qed

section \<open>Properties of the cell polygon\<close>

lemma orient_swap: "orient (prod.swap a) (prod.swap b) (prod.swap c) = - orient a b c"
  by (simp add: orient_def algebra_simps)

lemma in_box_swap: "in_box (prod.swap a) (prod.swap b) (prod.swap p) = in_box a b p"
  by (auto simp add: in_box_def)

lemma on_segment_swap:
  "on_segment (prod.swap a) (prod.swap b) (prod.swap p) = on_segment a b p"
  by (simp add: on_segment_def orient_swap in_box_swap)

lemma segments_meet_swap:
  "segments_meet (prod.swap a) (prod.swap b) (prod.swap c) (prod.swap d) = segments_meet a b c d"
  by (simp add: segments_meet_def orient_swap on_segment_swap)

lemma edge_swap:
  "i < length vs \<Longrightarrow>
     edge (map prod.swap vs) i = (prod.swap (fst (edge vs i)), prod.swap (snd (edge vs i)))"
proof -
  assume "i < length vs"
  then have "0 < length vs" by (cases vs) simp_all
  then have "Suc i mod length vs < length vs" by (rule mod_less_divisor)
  with \<open>i < length vs\<close> show ?thesis by (simp add: edge_def)
qed

lemma edges_apart_swap:
  assumes "i < length vs" "j < length vs"
  shows "edges_apart (map prod.swap vs) i j = edges_apart vs i j"
proof -
  obtain a b where ab: "edge vs i = (a, b)" by (cases "edge vs i")
  obtain c d where cd: "edge vs j = (c, d)" by (cases "edge vs j")
  show ?thesis
    unfolding edges_apart_def edge_swap[OF assms(1)] edge_swap[OF assms(2)] ab cd
    by (simp add: on_segment_swap segments_meet_swap)
qed

lemma simple_ring_swap: "simple_ring (map prod.swap vs) = simple_ring vs"
proof -
  have inj: "inj (prod.swap :: point \<Rightarrow> point)" by (rule injI) auto
  have d: "distinct (map prod.swap vs) = distinct vs"
    by (simp add: distinct_map inj_on_subset[OF inj subset_UNIV])
  have "list_all (\<lambda>i. list_all (\<lambda>j. edges_apart (map prod.swap vs) i j) [Suc i..<length vs])
          [0..<length vs] =
        list_all (\<lambda>i. list_all (\<lambda>j. edges_apart vs i j) [Suc i..<length vs]) [0..<length vs]"
    by (auto simp add: list_all_iff edges_apart_swap)
  with d show ?thesis by (simp add: simple_ring_def)
qed

lemma swap_pairs: "(\<lambda>(lat, lng). (lng, lat)) = (prod.swap :: point \<Rightarrow> point)"
  by (rule ext) auto

text \<open>
  Claim C8. Whatever boundary the library gives for the cell, the shell of the polygon is
  that boundary with every vertex turned from (latitude, longitude) into (longitude,
  latitude): as many vertices, in the same order. The ring of the polygon starts with the
  shell and is closed, and it is a simple ring exactly when the traversal of the library is
  one: exchanging the coordinates keeps edges apart that were apart.
\<close>

theorem h3_cell_to_polygon_boundary:
  "shell (h3_cell_to_polygon cell_to_boundary cell_index) =
     map (\<lambda>(lat, lng). (lng, lat)) (cell_to_boundary cell_index) \<and>
   length (shell (h3_cell_to_polygon cell_to_boundary cell_index)) =
     length (cell_to_boundary cell_index) \<and>
   (\<forall>i<length (cell_to_boundary cell_index).
      shell (h3_cell_to_polygon cell_to_boundary cell_index) ! i =
        (snd (cell_to_boundary cell_index ! i), fst (cell_to_boundary cell_index ! i))) \<and>
   (cell_to_boundary cell_index \<noteq> [] \<longrightarrow>
      hd (ring (h3_cell_to_polygon cell_to_boundary cell_index)) =
      last (ring (h3_cell_to_polygon cell_to_boundary cell_index)) \<and>
      take (length (cell_to_boundary cell_index))
        (ring (h3_cell_to_polygon cell_to_boundary cell_index)) =
        shell (h3_cell_to_polygon cell_to_boundary cell_index)) \<and>
   (simple_ring (shell (h3_cell_to_polygon cell_to_boundary cell_index)) \<longleftrightarrow>
      simple_ring (cell_to_boundary cell_index))"
proof -
  let ?b = "cell_to_boundary cell_index"
  let ?p = "h3_cell_to_polygon cell_to_boundary cell_index"
  have sh: "shell ?p = map prod.swap ?b"
    by (simp add: h3_cell_to_polygon_def swap_pairs)
  have 1: "shell ?p = map (\<lambda>(lat, lng). (lng, lat)) ?b" by (simp add: h3_cell_to_polygon_def)
  have 2: "length (shell ?p) = length ?b" by (simp add: sh)
  have 3: "\<forall>i<length ?b. shell ?p ! i = (snd (?b ! i), fst (?b ! i))"
    by (simp add: sh prod.swap_def)
  have 4: "hd (ring ?p) = last (ring ?p) \<and> take (length ?b) (ring ?p) = shell ?p"
    if ne: "?b \<noteq> []"
  proof -
    from ne obtain v vs where b: "?b = v # vs" by (cases ?b) auto
    show ?thesis
    proof (cases "last (map prod.swap (v # vs)) = prod.swap v")
      case True
      then have "ring ?p = map prod.swap (v # vs)"
        unfolding ring_def sh b by simp
      with True show ?thesis unfolding sh b by simp
    next
      case False
      then have "ring ?p = map prod.swap (v # vs) @ [prod.swap v]"
        unfolding ring_def sh b by simp
      then show ?thesis unfolding sh b by simp
    qed
  qed
  have 5: "simple_ring (shell ?p) \<longleftrightarrow> simple_ring ?b" by (simp add: sh simple_ring_swap)
  from 1 2 3 4 5 show ?thesis by blast
qed

text \<open>For a boundary of six vertices the shell has the six exchanged pairs in order, is
  simple, and its ring ends at its first vertex.\<close>

theorem h3_cell_to_polygon_boundary_witness:
  "shell (h3_cell_to_polygon (\<lambda>cell. hexagon) ''8b6189256d9bfff'') =
     [(77.59, 12.97), (77.60, 12.98), (77.60, 12.99), (77.59, 13.00),
      (77.58, 12.99), (77.58, 12.98)] \<and>
   simple_ring (shell (h3_cell_to_polygon (\<lambda>cell. hexagon) ''8b6189256d9bfff'')) \<and>
   hd (ring (h3_cell_to_polygon (\<lambda>cell. hexagon) ''8b6189256d9bfff'')) = (77.59, 12.97) \<and>
   last (ring (h3_cell_to_polygon (\<lambda>cell. hexagon) ''8b6189256d9bfff'')) = (77.59, 12.97)"
proof -
  have s: "simple_ring hexagon" by code_simp
  have ne: "hexagon \<noteq> []" by (simp add: hexagon_def)
  note main = h3_cell_to_polygon_boundary[of "\<lambda>cell. hexagon" "''8b6189256d9bfff''"]
  from main have sh: "shell (h3_cell_to_polygon (\<lambda>cell. hexagon) ''8b6189256d9bfff'') =
     map (\<lambda>(lat, lng). (lng, lat)) hexagon" by blast
  from main s have si: "simple_ring (shell (h3_cell_to_polygon (\<lambda>cell. hexagon) ''8b6189256d9bfff''))"
    by blast
  from main ne have cl: "hd (ring (h3_cell_to_polygon (\<lambda>cell. hexagon) ''8b6189256d9bfff'')) =
      last (ring (h3_cell_to_polygon (\<lambda>cell. hexagon) ''8b6189256d9bfff''))" by blast
  have h: "hd (ring (h3_cell_to_polygon (\<lambda>cell. hexagon) ''8b6189256d9bfff'')) = (77.59, 12.97)"
    unfolding ring_def sh by (simp add: hexagon_def)
  from sh si cl h show ?thesis by (simp add: hexagon_def)
qed

end
